theory Spec2Isabelle
  imports Main "HOL-Library.AList"
begin

section \<open>Selective upgrade of a yarn.lock: the data\<close>

text \<open>
  The program (\<^verbatim>\<open>upgradeLock\<close> and its helpers) snapshots a yarn.lock, lets
  \<^verbatim>\<open>jlpm install\<close> rewrite it, and then puts every package whose name does not match
  the requested pattern back to an entry of the snapshot.

  A lock entry is the TypeScript type \<^verbatim>\<open>YarnEntry\<close>. A parsed lock file is a
  JavaScript object \<^verbatim>\<open>Record<string, YarnEntry>\<close>: its keys are distinct and
  \<^verbatim>\<open>for ... in\<close> visits them in insertion order, so it is an association list.
\<close>

datatype LanguageName = node

datatype LinkType = hard | soft

record YarnEntry =
  version :: string
  resolution :: string
  dependencies :: "(string \<times> string) list option"
  checksum :: "string option"
  languageName :: "LanguageName option"
  linkType :: "LinkType option"

type_synonym Packages = "(string \<times> YarnEntry) list"

text \<open>
  \<^verbatim>\<open>pkgToDescriptor\<close> is a JavaScript \<^verbatim>\<open>Map<string, string[]>\<close>: package name to
  the keys of the snapshot that resolve to it. Only \<^verbatim>\<open>has\<close>, \<^verbatim>\<open>get\<close> and
  \<^verbatim>\<open>set\<close> are used.
\<close>

type_synonym PackageIndex = "(string \<times> string list) list"

subsection \<open>The libraries the program calls\<close>

text \<open>
  What \<^verbatim>\<open>structUtils.parseDescriptor\<close> and \<^verbatim>\<open>structUtils.parseRange\<close> return, as far
  as the program reads it.
\<close>

record Descriptor =
  scope :: "string option"
  name :: string
  range_d :: string

record Range =
  protocol :: "string option"
  source :: "string option"
  selector :: string

text \<open>
  The functions of \<^verbatim>\<open>@yarnpkg/core\<close>, \<^verbatim>\<open>@yarnpkg/parsers\<close>, \<^verbatim>\<open>semver\<close> and
  \<^verbatim>\<open>micromatch\<close> are not part of the program; they are parameters of the model. A
  function that throws returns \<open>None\<close>; \<^verbatim>\<open>semver.validRange\<close> returns \<^verbatim>\<open>null\<close>
  as \<open>None\<close>. \<^verbatim>\<open>micromatch.isMatch\<close> throws a \<^verbatim>\<open>TypeError\<close> when the pattern is
  not a non-empty string.
\<close>

record lib =
  parseDescriptor :: "string \<Rightarrow> Descriptor option"
  parseRange :: "string \<Rightarrow> Range option"
  validRange :: "string \<Rightarrow> string option"
  satisfies :: "string \<Rightarrow> string \<Rightarrow> bool"
  isMatch :: "string \<Rightarrow> string \<Rightarrow> bool option"
  parseSyml :: "string \<Rightarrow> Packages option"
  stringifySyml :: "Packages \<Rightarrow> string"

subsection \<open>Errors, console, files\<close>

text \<open>
  Nothing is caught anywhere in the program (\<^verbatim>\<open>exitOnUncaughtException\<close> ends the
  process), so every exception is a result \<open>Inl\<close> that ends the run.
\<close>

datatype error =
  ENOENT
  | SymlSyntaxError
  | InvalidDescriptor
  | InvalidRange
  | TypeError
  | CommandFailed

datatype message =
  Downgrade string string string
  | NoPackageFound string
  | Ignoring string
  | NewPackage string

datatype consoleLine = Log message | Warn message

text \<open>
  The world outside the process: the contents of the lock file (\<open>None\<close> when there is
  no such file), what was printed so far, and whatever else the package manager
  depends on (\<^verbatim>\<open>package.json\<close>, the registry, its cache).
\<close>

record 'x world =
  lockFile :: "string option"
  console :: "consoleLine list"
  outside :: 'x

text \<open>
  A shell command reads and writes the lock file and the rest of the world, and
  exits with status zero (\<open>True\<close>) or not.
\<close>

type_synonym 'x shell = "string \<Rightarrow> 'x \<Rightarrow> string option \<Rightarrow> bool \<times> 'x \<times> string option"

section \<open>The program\<close>

subsection \<open>JavaScript strings\<close>

definition startsWith :: "string \<Rightarrow> string \<Rightarrow> bool" where
  "startsWith s p = (take (length p) s = p)"

text \<open>\<^verbatim>\<open>s.split(c)\<close> for a separator of one character: never empty.\<close>

fun js_split :: "char \<Rightarrow> string \<Rightarrow> string list" where
  "js_split c [] = [[]]"
| "js_split c (x # xs) =
     (if x = c then [] # js_split c xs
      else (case js_split c xs of [] \<Rightarrow> [[x]] | r # rs \<Rightarrow> (x # r) # rs))"

text \<open>The white space of \<^verbatim>\<open>trim\<close> that is a single byte.\<close>

definition isSpace :: "char \<Rightarrow> bool" where
  "isSpace c = (c \<in> set [CHR 0x20, CHR 0x09, CHR 0x0A, CHR 0x0B, CHR 0x0C, CHR 0x0D])"

definition trim :: "string \<Rightarrow> string" where
  "trim s = rev (dropWhile isSpace (rev (dropWhile isSpace s)))"

text \<open>A string or \<^verbatim>\<open>null\<close> in a condition: false when \<^verbatim>\<open>null\<close> or empty.\<close>

definition truthy :: "string option \<Rightarrow> bool" where
  "truthy v = (case v of None \<Rightarrow> False | Some s \<Rightarrow> s \<noteq> [])"

subsection \<open>The lock file\<close>

text \<open>\<^verbatim>\<open>yarnLockHeader\<close>: two comment lines and an empty line.\<close>

definition yarnLockHeader :: string where
  "yarnLockHeader =
     ''# This file is generated by running '' @ [CHR 0x22] @ ''yarn install'' @ [CHR 0x22]
       @ '' inside your project.'' @ [CHR 0x0A]
     @ ''# Manual changes might be lost - proceed with caution!'' @ [CHR 0x0A]
     @ [CHR 0x0A]"

definition loadPackages :: "lib \<Rightarrow> 'x world \<Rightarrow> error + Packages" where
  "loadPackages L w =
     (case lockFile w of
        None \<Rightarrow> Inl ENOENT
      | Some yarnLock \<Rightarrow>
          (case parseSyml L yarnLock of
             None \<Rightarrow> Inl SymlSyntaxError
           | Some m \<Rightarrow> Inr m))"

subsection \<open>Package names\<close>

definition extractNameFromDescriptor :: "lib \<Rightarrow> string \<Rightarrow> error + string" where
  "extractNameFromDescriptor L nm =
     (case js_split CHR '','' nm of
        [] \<Rightarrow> Inl TypeError
      | first # _ \<Rightarrow>
          (case parseDescriptor L (trim first) of
             None \<Rightarrow> Inl InvalidDescriptor
           | Some descriptor \<Rightarrow>
               Inr (if truthy (scope descriptor)
                    then ''@'' @ the (scope descriptor) @ ''/'' @ name descriptor
                    else name descriptor)))"

text \<open>
  The first loop of \<^verbatim>\<open>upgradeLock\<close>: the keys of the snapshot, grouped by package
  name, in the order of the file. \<^verbatim>\<open>pkgs[pkg]\<close> of a key that is not there is
  \<^verbatim>\<open>undefined\<close>, and reading its \<^verbatim>\<open>resolution\<close> throws.
\<close>

fun indexPackages :: "lib \<Rightarrow> Packages \<Rightarrow> string list \<Rightarrow> PackageIndex \<Rightarrow> error + PackageIndex" where
  "indexPackages L pkgs [] pkgToDescriptor = Inr pkgToDescriptor"
| "indexPackages L pkgs (pkg # rest) pkgToDescriptor =
     (if startsWith pkg ''__'' then indexPackages L pkgs rest pkgToDescriptor
      else
        (case map_of pkgs pkg of
           None \<Rightarrow> Inl TypeError
         | Some entry \<Rightarrow>
             (case extractNameFromDescriptor L (resolution entry) of
                Inl e \<Rightarrow> Inl e
              | Inr nm \<Rightarrow>
                  indexPackages L pkgs rest
                    (case map_of pkgToDescriptor nm of
                       Some keys \<Rightarrow> AList.update nm (keys @ [pkg]) pkgToDescriptor
                     | None \<Rightarrow> AList.update nm [pkg] pkgToDescriptor))))"

subsection \<open>One descriptor against one original version\<close>

text \<open>
  The test of the program on a version and the selector of a range:
  \<^verbatim>\<open>!semver.validRange(range.selector) || semver.satisfies(origPkg.version, range.selector)\<close>.
\<close>

definition satisfiesCheck :: "lib \<Rightarrow> string \<Rightarrow> string \<Rightarrow> bool" where
  "satisfiesCheck L origVersion sel =
     (\<not> truthy (validRange L sel) \<or> satisfies L origVersion sel)"

text \<open>
  The function given to \<^verbatim>\<open>every\<close>. \<^verbatim>\<open>origPkg\<close> is \<^verbatim>\<open>pkgs[origDescriptor]\<close>, which is
  \<^verbatim>\<open>undefined\<close> (\<open>None\<close>) for a key the snapshot does not have; its version is read
  only when the selector is a valid range.
\<close>

definition checkDescriptor :: "lib \<Rightarrow> YarnEntry option \<Rightarrow> string \<Rightarrow> error + bool" where
  "checkDescriptor L origPkg desc =
     (case parseDescriptor L (trim desc) of
        None \<Rightarrow> Inl InvalidDescriptor
      | Some parsedDesc \<Rightarrow>
          (case parseRange L (range_d parsedDesc) of
             None \<Rightarrow> Inl InvalidRange
           | Some rng \<Rightarrow>
               (case origPkg of
                  Some orig \<Rightarrow> Inr (satisfiesCheck L (version orig) (selector rng))
                | None \<Rightarrow>
                    if \<not> truthy (validRange L (selector rng)) then Inr True
                    else Inl TypeError)))"

text \<open>\<^verbatim>\<open>Array.prototype.every\<close>: stops at the first false, and at the first exception.\<close>

fun every :: "('a \<Rightarrow> error + bool) \<Rightarrow> 'a list \<Rightarrow> error + bool" where
  "every p [] = Inr True"
| "every p (x # xs) =
     (case p x of
        Inl e \<Rightarrow> Inl e
      | Inr ok \<Rightarrow> if ok then every p xs else Inr False)"

text \<open>
  The loop over \<^verbatim>\<open>pkgToDescriptor.get(name)\<close>: the entry of the first original key
  that passes for every descriptor of \<^verbatim>\<open>pkg\<close> (\<^verbatim>\<open>noMatch = false; break\<close>), or
  \<open>None\<close> (\<^verbatim>\<open>noMatch\<close> stays true).
\<close>

fun findOriginal :: "lib \<Rightarrow> Packages \<Rightarrow> string \<Rightarrow> string list \<Rightarrow> error + YarnEntry option" where
  "findOriginal L pkgs pkg [] = Inr None"
| "findOriginal L pkgs pkg (origDescriptor # rest) =
     (case every (checkDescriptor L (map_of pkgs origDescriptor)) (js_split CHR '','' pkg) of
        Inl e \<Rightarrow> Inl e
      | Inr ok \<Rightarrow>
          if ok then
            (case map_of pkgs origDescriptor of
               None \<Rightarrow> Inl TypeError
             | Some origPkg \<Rightarrow> Inr (Some origPkg))
          else findOriginal L pkgs pkg rest)"

subsection \<open>One pass over the reloaded lock file\<close>

text \<open>The local variables of \<^verbatim>\<open>upgradeSelectedPackages\<close>, and what it has printed.\<close>

record pass =
  newPkgs :: Packages
  hasChange :: bool
  printed :: "consoleLine list"

text \<open>The body of the loop \<^verbatim>\<open>for (const pkg in newPkgs)\<close>.\<close>

definition visitPackage ::
    "lib \<Rightarrow> PackageIndex \<Rightarrow> string \<Rightarrow> Packages \<Rightarrow> string \<Rightarrow> pass \<Rightarrow> error + pass" where
  "visitPackage L pkgToDescriptor packages pkgs pkg st =
     (if startsWith pkg ''__'' then Inr st
      else
        (case map_of (newPkgs st) pkg of
           None \<Rightarrow> Inl TypeError
         | Some current \<Rightarrow>
             (case extractNameFromDescriptor L (resolution current) of
                Inl e \<Rightarrow> Inl e
              | Inr nm \<Rightarrow>
                  (case map_of pkgToDescriptor nm of
                     None \<Rightarrow> Inr (st\<lparr>printed := printed st @ [Warn (NewPackage pkg)]\<rparr>)
                   | Some origDescriptors \<Rightarrow>
                       (case isMatch L nm packages of
                          None \<Rightarrow> Inl TypeError
                        | Some matched \<Rightarrow>
                            if \<not> matched then
                              (case findOriginal L pkgs pkg origDescriptors of
                                 Inl e \<Rightarrow> Inl e
                               | Inr None \<Rightarrow>
                                   Inr (st\<lparr>printed := printed st @ [Warn (NoPackageFound pkg)]\<rparr>)
                               | Inr (Some origPkg) \<Rightarrow>
                                   if version origPkg \<noteq> version current then
                                     Inr (st\<lparr>newPkgs := AList.update pkg origPkg (newPkgs st),
                                             hasChange := True,
                                             printed := printed st @
                                               [Log (Downgrade nm (version current)
                                                      (version origPkg))]\<rparr>)
                                   else Inr st)
                            else Inr (st\<lparr>printed := printed st @ [Log (Ignoring pkg)]\<rparr>))))))"

text \<open>
  The loop itself. An exception ends it; what was printed so far stays printed.
\<close>

fun forEachPackage ::
    "lib \<Rightarrow> PackageIndex \<Rightarrow> string \<Rightarrow> Packages \<Rightarrow> string list \<Rightarrow> pass \<Rightarrow> error option \<times> pass" where
  "forEachPackage L pkgToDescriptor packages pkgs [] st = (None, st)"
| "forEachPackage L pkgToDescriptor packages pkgs (pkg # rest) st =
     (case visitPackage L pkgToDescriptor packages pkgs pkg st of
        Inl e \<Rightarrow> (Some e, st)
      | Inr st' \<Rightarrow> forEachPackage L pkgToDescriptor packages pkgs rest st')"

text \<open>The loop on a freshly loaded mapping.\<close>

definition diffPass ::
    "lib \<Rightarrow> PackageIndex \<Rightarrow> string \<Rightarrow> Packages \<Rightarrow> Packages \<Rightarrow> error option \<times> pass" where
  "diffPass L pkgToDescriptor packages pkgs loaded =
     forEachPackage L pkgToDescriptor packages pkgs (map fst loaded)
       \<lparr>newPkgs = loaded, hasChange = False, printed = []\<rparr>"

definition upgradeSelectedPackages ::
    "lib \<Rightarrow> PackageIndex \<Rightarrow> string \<Rightarrow> Packages \<Rightarrow> 'x world \<Rightarrow> (error + bool) \<times> 'x world" where
  "upgradeSelectedPackages L pkgToDescriptor packages pkgs w =
     (case loadPackages L w of
        Inl e \<Rightarrow> (Inl e, w)
      | Inr loaded \<Rightarrow>
          (case diffPass L pkgToDescriptor packages pkgs loaded of
             (Some e, st) \<Rightarrow> (Inl e, w\<lparr>console := console w @ printed st\<rparr>)
           | (None, st) \<Rightarrow>
               if hasChange st then
                 (Inr True,
                  w\<lparr>lockFile := Some (yarnLockHeader @ stringifySyml L (newPkgs st)),
                    console := console w @ printed st\<rparr>)
               else (Inr False, w\<lparr>console := console w @ printed st\<rparr>)))"

subsection \<open>The whole run\<close>

text \<open>
  Modelled from the spec: \<^verbatim>\<open>run\<close> of \<^verbatim>\<open>./utils\<close>, which is not among the sources.
  It is the external resolve trigger, a shell invocation of the package manager that
  may rewrite the lock file; a nonzero exit is fatal.
\<close>

definition run :: "'x shell \<Rightarrow> string \<Rightarrow> 'x world \<Rightarrow> (error + unit) \<times> 'x world" where
  "run sh cmd w =
     (case sh cmd (outside w) (lockFile w) of
        (ok, x, f) \<Rightarrow>
          (if ok then Inr () else Inl CommandFailed, w\<lparr>lockFile := f, outside := x\<rparr>))"

text \<open>
  \<^verbatim>\<open>do { run('jlpm install') } while (upgradeSelectedPackages(...) && counter-- > 0)\<close>:
  the counter is compared, then decremented, and only after a pass that changed
  something.
\<close>

function resolveLoop ::
    "'x shell \<Rightarrow> lib \<Rightarrow> PackageIndex \<Rightarrow> string \<Rightarrow> Packages \<Rightarrow> int \<Rightarrow> 'x world
      \<Rightarrow> (error + unit) \<times> 'x world" where
  "resolveLoop sh L pkgToDescriptor packages pkgs counter w =
     (case run sh ''jlpm install'' w of
        (Inl e, w1) \<Rightarrow> (Inl e, w1)
      | (Inr u, w1) \<Rightarrow>
          (case upgradeSelectedPackages L pkgToDescriptor packages pkgs w1 of
             (Inl e, w2) \<Rightarrow> (Inl e, w2)
           | (Inr changed, w2) \<Rightarrow>
               if changed \<and> counter > 0
               then resolveLoop sh L pkgToDescriptor packages pkgs (counter - 1) w2
               else (Inr (), w2)))"
  by pat_completeness auto
termination
  by (relation "measure (\<lambda>(sh, L, pkgToDescriptor, packages, pkgs, counter, w). nat counter)") auto

declare resolveLoop.simps [simp del]

definition upgradeLock :: "'x shell \<Rightarrow> lib \<Rightarrow> string \<Rightarrow> 'x world \<Rightarrow> (error + unit) \<times> 'x world" where
  "upgradeLock sh L packages w =
     (case loadPackages L w of
        Inl e \<Rightarrow> (Inl e, w)
      | Inr pkgs \<Rightarrow>
          (case indexPackages L pkgs (map fst pkgs) [] of
             Inl e \<Rightarrow> (Inl e, w)
           | Inr pkgToDescriptor \<Rightarrow>
               (case resolveLoop sh L pkgToDescriptor packages pkgs 5 w of
                  (Inl e, w') \<Rightarrow> (Inl e, w')
                | (Inr u, w') \<Rightarrow> run sh ''jlpm install --immutable'' w')))"

section \<open>Notions used to state the properties\<close>

definition canonicalName :: "lib \<Rightarrow> YarnEntry \<Rightarrow> error + string" where
  "canonicalName L e = extractNameFromDescriptor L (resolution e)"

text \<open>
  The selector of one descriptor of a key: the descriptor is trimmed and parsed, then
  its range is parsed. \<open>None\<close> when one of the two parsers throws.
\<close>

definition descriptorSelector :: "lib \<Rightarrow> string \<Rightarrow> string option" where
  "descriptorSelector L desc =
     (case parseDescriptor L (trim desc) of
        None \<Rightarrow> None
      | Some parsedDesc \<Rightarrow> map_option selector (parseRange L (range_d parsedDesc)))"

definition descriptorsParse :: "lib \<Rightarrow> string \<Rightarrow> bool" where
  "descriptorsParse L k =
     list_all (\<lambda>desc. descriptorSelector L desc \<noteq> None) (js_split CHR '','' k)"

text \<open>
  An original entry fits a key when its version passes the test for the selector of
  every comma-separated descriptor of the key.
\<close>

definition fits :: "lib \<Rightarrow> string \<Rightarrow> YarnEntry \<Rightarrow> bool" where
  "fits L k orig =
     list_all
       (\<lambda>desc. case descriptorSelector L desc of
                  None \<Rightarrow> False
                | Some sel \<Rightarrow> satisfiesCheck L (version orig) sel)
       (js_split CHR '','' k)"

text \<open>The entry of the first key of a list whose entry fits.\<close>

definition firstFit :: "lib \<Rightarrow> Packages \<Rightarrow> string \<Rightarrow> string list \<Rightarrow> YarnEntry option" where
  "firstFit L pkgs k origDescriptors =
     (case List.find
             (\<lambda>od. case map_of pkgs od of None \<Rightarrow> False | Some orig \<Rightarrow> fits L k orig)
             origDescriptors of
        None \<Rightarrow> None
      | Some od \<Rightarrow> map_of pkgs od)"

text \<open>The keys of a mapping that are package entries of a given name, in file order.\<close>

definition keysNamed :: "lib \<Rightarrow> Packages \<Rightarrow> string \<Rightarrow> string list" where
  "keysNamed L pkgs nm =
     filter
       (\<lambda>k. \<not> startsWith k ''__'' \<and>
            (case map_of pkgs k of
               None \<Rightarrow> False
             | Some e \<Rightarrow> canonicalName L e = Inr nm))
       (map fst pkgs)"

definition isDowngrade :: "consoleLine \<Rightarrow> bool" where
  "isDowngrade l = (case l of Log (Downgrade nm old new) \<Rightarrow> True | _ \<Rightarrow> False)"

text \<open>
  What a lock file holds: the mapping it parses to, or the mapping whose serialisation
  under the banner it is.
\<close>

definition holds :: "lib \<Rightarrow> string option \<Rightarrow> Packages \<Rightarrow> bool" where
  "holds L file m =
     (case file of
        None \<Rightarrow> False
      | Some t \<Rightarrow> parseSyml L t = Some m \<or> t = yarnLockHeader @ stringifySyml L m)"

text \<open>The lines a pass can print about one key.\<close>

definition about :: "string \<Rightarrow> consoleLine set" where
  "about k = {Warn (NewPackage k), Warn (NoPackageFound k), Log (Ignoring k)}"

text \<open>
  The descriptors of a key, taken in order against an original version: one that
  cannot be decomposed into a name and a range is met before one that the version
  fails.
\<close>

fun reachesUnparsable :: "lib \<Rightarrow> string \<Rightarrow> string list \<Rightarrow> bool" where
  "reachesUnparsable L v [] = False"
| "reachesUnparsable L v (desc # rest) =
     (case descriptorSelector L desc of
        None \<Rightarrow> True
      | Some sel \<Rightarrow> satisfiesCheck L v sel \<and> reachesUnparsable L v rest)"

text \<open>
  An entry at a key that a pass over a given snapshot cannot decompose: its resolution
  has no name; or its name is out of the pattern, the snapshot has entries of that
  name, and against the first of them the descriptors of the key reach one that cannot
  be decomposed.
\<close>

definition undecomposable :: "lib \<Rightarrow> string \<Rightarrow> Packages \<Rightarrow> string \<Rightarrow> YarnEntry \<Rightarrow> bool" where
  "undecomposable L packages pkgs k e =
     (case canonicalName L e of
        Inl err \<Rightarrow> True
      | Inr nm \<Rightarrow>
          isMatch L nm packages = Some False \<and>
          (case keysNamed L pkgs nm of
             [] \<Rightarrow> False
           | od # rest \<Rightarrow>
               (case map_of pkgs od of
                  None \<Rightarrow> False
                | Some orig \<Rightarrow> reachesUnparsable L (version orig) (js_split CHR '','' k))))"

text \<open>
  A mapping is settled for a pattern when a pass whose snapshot is the mapping itself
  has nothing to revert: every resolution parses, the matcher answers for every name,
  and for every entry out of the pattern the descriptors of the key parse and the
  first fitting entry of its name, if any, has its version.
\<close>

definition settled :: "lib \<Rightarrow> string \<Rightarrow> Packages \<Rightarrow> bool" where
  "settled L packages m =
     list_all
       (\<lambda>(k, e).
          startsWith k ''__'' \<or>
          (case canonicalName L e of
             Inl err \<Rightarrow> False
           | Inr nm \<Rightarrow>
               (case isMatch L nm packages of
                  None \<Rightarrow> False
                | Some matched \<Rightarrow>
                    matched \<or>
                    (descriptorsParse L k \<and>
                     (case firstFit L m k (keysNamed L m nm) of
                        None \<Rightarrow> True
                      | Some orig \<Rightarrow> version orig = version e)))))
       m"

text \<open>
  The state of the loop of \<^verbatim>\<open>upgradeLock\<close> (the counter and the world) after a number
  of iterations that each installed, changed something and found the counter
  positive; \<open>None\<close> when the loop does not get that far.
\<close>

fun loopAfter ::
    "nat \<Rightarrow> 'x shell \<Rightarrow> lib \<Rightarrow> PackageIndex \<Rightarrow> string \<Rightarrow> Packages \<Rightarrow> int \<Rightarrow> 'x world
      \<Rightarrow> (int \<times> 'x world) option" where
  "loopAfter 0 sh L idx packages pkgs counter w = Some (counter, w)"
| "loopAfter (Suc n) sh L idx packages pkgs counter w =
     (case run sh ''jlpm install'' w of
        (Inl e, w1) \<Rightarrow> None
      | (Inr u, w1) \<Rightarrow>
          (case upgradeSelectedPackages L idx packages pkgs w1 of
             (Inl e, w2) \<Rightarrow> None
           | (Inr changed, w2) \<Rightarrow>
               if changed \<and> counter > 0
               then loopAfter n sh L idx packages pkgs (counter - 1) w2
               else None))"

text \<open>
  Any shell, with a count of the mutable installs it was asked for kept beside its
  own state.
\<close>

definition counting :: "'x shell \<Rightarrow> ('x \<times> nat) shell" where
  "counting sh cmd xn f =
     (case sh cmd (fst xn) f of
        (ok, x, f') \<Rightarrow>
          (ok, (x, if cmd = ''jlpm install'' then Suc (snd xn) else snd xn), f'))"

section \<open>A small installation to run the program on\<close>

text \<open>
  Stand-ins for the libraries, right on the strings of the scenarios below:
  descriptors \<^verbatim>\<open>name@range\<close> and \<^verbatim>\<open>@scope/name@range\<close>, ranges \<^verbatim>\<open>protocol:selector\<close>,
  patterns without a glob character (the empty pattern makes \<^verbatim>\<open>micromatch\<close> throw),
  and the answers of \<^verbatim>\<open>semver\<close> as tables.
\<close>

definition demo_parseDescriptor :: "string \<Rightarrow> Descriptor option" where
  "demo_parseDescriptor s =
     (let scoped = (take 1 s = ''@'') \<and> CHR ''/'' \<in> set s;
          sc = (if scoped then takeWhile (\<lambda>c. c \<noteq> CHR ''/'') (drop 1 s) else []);
          rest = (if scoped then drop 1 (dropWhile (\<lambda>c. c \<noteq> CHR ''/'') s) else s);
          nm = takeWhile (\<lambda>c. c \<noteq> CHR ''@'') rest;
          rg = drop 1 (dropWhile (\<lambda>c. c \<noteq> CHR ''@'') rest)
      in if nm = [] \<or> CHR ''/'' \<in> set nm \<or> (scoped \<and> sc = [])
            \<or> (CHR ''@'' \<in> set rest \<and> rg = [])
         then None
         else Some \<lparr>scope = (if scoped then Some sc else None), name = nm,
                    range_d = (if rg = [] then ''unknown'' else rg)\<rparr>)"

definition demo_parseRange :: "string \<Rightarrow> Range option" where
  "demo_parseRange s =
     (if CHR ''#'' \<in> set s then None
      else if CHR '':'' \<in> set s then
        Some \<lparr>protocol = Some (takeWhile (\<lambda>c. c \<noteq> CHR '':'') s @ '':''), source = None,
               selector = drop 1 (dropWhile (\<lambda>c. c \<noteq> CHR '':'') s)\<rparr>
      else Some \<lparr>protocol = None, source = None, selector = s\<rparr>)"

text \<open>
  \<^verbatim>\<open>semver.validRange\<close> gives the normalised range; for the empty range it gives
  \<^verbatim>\<open>'*'\<close>. Anything else here is not a range.
\<close>

definition demo_validRange :: "string \<Rightarrow> string option" where
  "demo_validRange r =
     map_of
       [([], ''*''),
        (''^1.0.0'', ''>=1.0.0 <2.0.0-0''),
        (''^2.0.0'', ''>=2.0.0 <3.0.0-0''),
        (''^3.0.0'', ''>=3.0.0 <4.0.0-0''),
        (''^4.17.0'', ''>=4.17.0 <5.0.0-0''),
        (''4.17.20'', ''4.17.20'')] r"

text \<open>
  \<^verbatim>\<open>semver.satisfies\<close>: the pairs of a version and a range of the scenarios that
  satisfy. A version with a pre-release tag does not satisfy the empty range.
\<close>

definition demo_satisfies :: "string \<Rightarrow> string \<Rightarrow> bool" where
  "demo_satisfies v r =
     ((v, r) \<in> set
       [(''1.0.0'', ''^1.0.0''), (''1.1.0'', ''^1.0.0''),
        (''2.0.0'', ''^2.0.0''), (''2.1.0'', ''^2.0.0''),
        (''3.0.0'', ''^3.0.0''),
        (''4.17.20'', ''4.17.20''), (''4.17.20'', ''^4.17.0''), (''4.17.21'', ''^4.17.0''),
        (''1.0.0'', []), (''2.0.0'', [])])"

definition demo_isMatch :: "string \<Rightarrow> string \<Rightarrow> bool option" where
  "demo_isMatch nm pattern = (if pattern = [] then None else Some (nm = pattern))"

definition demo_stringifySyml :: "Packages \<Rightarrow> string" where
  "demo_stringifySyml m =
     concat (map (\<lambda>(k, e).
        k @ '':'' @ [CHR 0x0A]
        @ ''  version: '' @ version e @ [CHR 0x0A]
        @ ''  resolution: '' @ resolution e @ [CHR 0x0A] @ [CHR 0x0A]) m)"

definition lockText :: "Packages \<Rightarrow> string" where
  "lockText m = yarnLockHeader @ demo_stringifySyml m"

text \<open>The parser knows the lock files of one scenario.\<close>

definition demo_parseSyml :: "Packages list \<Rightarrow> string \<Rightarrow> Packages option" where
  "demo_parseSyml known t = List.find (\<lambda>m. lockText m = t) known"

definition demoLib :: "Packages list \<Rightarrow> lib" where
  "demoLib known =
     \<lparr>parseDescriptor = demo_parseDescriptor, parseRange = demo_parseRange,
      validRange = demo_validRange, satisfies = demo_satisfies, isMatch = demo_isMatch,
      parseSyml = demo_parseSyml known, stringifySyml = demo_stringifySyml\<rparr>"

definition entry :: "string \<Rightarrow> string \<Rightarrow> YarnEntry" where
  "entry v r =
     \<lparr>version = v, resolution = r, dependencies = None, checksum = None,
      languageName = Some node, linkType = Some hard\<rparr>"

definition metadata :: "string \<times> YarnEntry" where
  "metadata =
     (''__metadata'',
      \<lparr>version = ''8'', resolution = [], dependencies = None, checksum = None,
       languageName = None, linkType = None\<rparr>)"

text \<open>
  The package manager of the scenarios. It counts the mutable and the immutable
  installs. The first kind resolves a lock file \<open>old\<close> to \<open>new\<close> and leaves any other
  lock file alone; the second kind never writes.
\<close>

definition installOnce :: "Packages \<Rightarrow> Packages \<Rightarrow> (nat \<times> nat) shell" where
  "installOnce old new cmd x file =
     (if cmd = ''jlpm install''
      then (True, (Suc (fst x), snd x),
            (if file = Some (lockText old) then Some (lockText new) else file))
      else (True, (fst x, Suc (snd x)), file))"

text \<open>
  A package manager that resolves every lock file to \<open>new\<close>, and in immutable mode
  fails on any other.
\<close>

definition installAlways :: "Packages \<Rightarrow> (nat \<times> nat) shell" where
  "installAlways new cmd x file =
     (if cmd = ''jlpm install''
      then (True, (Suc (fst x), snd x), Some (lockText new))
      else (file = Some (lockText new), (fst x, Suc (snd x)), file))"

definition startWorld :: "Packages \<Rightarrow> (nat \<times> nat) world" where
  "startWorld m = \<lparr>lockFile = Some (lockText m), console = [], outside = (0, 0)\<rparr>"

text \<open>
  Scenario A, B and C in one: \<^verbatim>\<open>pkg-a\<close> is to be upgraded. The install bumps
  \<^verbatim>\<open>pkg-a\<close> and \<^verbatim>\<open>pkg-b\<close>, adds a second range of \<^verbatim>\<open>pkg-b\<close> that no original entry
  satisfies, and adds the new package \<^verbatim>\<open>pkg-c\<close>.
\<close>

definition original :: Packages where
  "original =
     [metadata,
      (''pkg-a@npm:^1.0.0'', entry ''1.0.0'' ''pkg-a@npm:1.0.0''),
      (''pkg-b@npm:^2.0.0'', entry ''2.0.0'' ''pkg-b@npm:2.0.0'')]"

definition bumped :: Packages where
  "bumped =
     [metadata,
      (''pkg-a@npm:^1.0.0'', entry ''1.1.0'' ''pkg-a@npm:1.1.0''),
      (''pkg-b@npm:^2.0.0'', entry ''2.1.0'' ''pkg-b@npm:2.1.0''),
      (''pkg-b@npm:^3.0.0'', entry ''3.0.0'' ''pkg-b@npm:3.0.0''),
      (''pkg-c@npm:^3.0.0'', entry ''3.0.0'' ''pkg-c@npm:3.0.0'')]"

definition reverted :: Packages where
  "reverted =
     [metadata,
      (''pkg-a@npm:^1.0.0'', entry ''1.1.0'' ''pkg-a@npm:1.1.0''),
      (''pkg-b@npm:^2.0.0'', entry ''2.0.0'' ''pkg-b@npm:2.0.0''),
      (''pkg-b@npm:^3.0.0'', entry ''3.0.0'' ''pkg-b@npm:3.0.0''),
      (''pkg-c@npm:^3.0.0'', entry ''3.0.0'' ''pkg-c@npm:3.0.0'')]"

definition scenario :: lib where
  "scenario = demoLib [original, bumped, reverted]"

text \<open>
  A second scenario: the install adds \<^verbatim>\<open>lodash\<close>, asked for with two ranges that
  resolve to two versions.
\<close>

definition beforeInstall :: Packages where
  "beforeInstall =
     [metadata,
      (''pkg-a@npm:^1.0.0'', entry ''1.0.0'' ''pkg-a@npm:1.0.0'')]"

definition afterInstall :: Packages where
  "afterInstall =
     [metadata,
      (''lodash@npm:4.17.20'', entry ''4.17.20'' ''lodash@npm:4.17.20''),
      (''lodash@npm:^4.17.0'', entry ''4.17.21'' ''lodash@npm:4.17.21''),
      (''pkg-a@npm:^1.0.0'', entry ''1.1.0'' ''pkg-a@npm:1.1.0'')]"

definition afterRerun :: Packages where
  "afterRerun =
     [metadata,
      (''lodash@npm:4.17.20'', entry ''4.17.20'' ''lodash@npm:4.17.20''),
      (''lodash@npm:^4.17.0'', entry ''4.17.20'' ''lodash@npm:4.17.20''),
      (''pkg-a@npm:^1.0.0'', entry ''1.1.0'' ''pkg-a@npm:1.1.0'')]"

definition scenario2 :: lib where
  "scenario2 = demoLib [beforeInstall, afterInstall, afterRerun]"

definition demoIndex :: PackageIndex where
  "demoIndex = [(''pkg-a'', [''pkg-a@npm:^1.0.0'']), (''pkg-b'', [''pkg-b@npm:^2.0.0''])]"

text \<open>
  A third scenario: the install writes an entry whose resolution has no package name.
\<close>

definition withBroken :: Packages where
  "withBroken =
     [metadata,
      (''pkg-a@npm:^1.0.0'', entry ''1.1.0'' ''pkg-a@npm:1.1.0''),
      (''pkg-b@npm:^1.0.0'', entry ''1.0.0'' ''@npm:1.0.0''),
      (''pkg-b@npm:^2.0.0'', entry ''2.1.0'' ''pkg-b@npm:2.1.0'')]"

definition scenario3 :: lib where
  "scenario3 = demoLib [original, withBroken]"

text \<open>
  A fourth scenario: the first install bumps as in the first scenario, and the install
  after the revert writes a key of \<^verbatim>\<open>pkg-b\<close> whose second descriptor has no package
  name.
\<close>

definition withBadKey :: Packages where
  "withBadKey =
     [metadata,
      (''pkg-a@npm:^1.0.0'', entry ''1.1.0'' ''pkg-a@npm:1.1.0''),
      (''pkg-b@npm:^2.0.0, @npm:x'', entry ''2.1.0'' ''pkg-b@npm:2.1.0''),
      (''pkg-c@npm:^3.0.0'', entry ''3.0.0'' ''pkg-c@npm:3.0.0'')]"

definition scenario4 :: lib where
  "scenario4 = demoLib [original, bumped, reverted, withBadKey]"

text \<open>
  A package manager that resolves the lock file \<open>old\<close> to \<open>new\<close> and any other lock
  file to \<open>later\<close>.
\<close>

definition installThen :: "Packages \<Rightarrow> Packages \<Rightarrow> Packages \<Rightarrow> (nat \<times> nat) shell" where
  "installThen old new later cmd x file =
     (if cmd = ''jlpm install''
      then (True, (Suc (fst x), snd x),
            (if file = Some (lockText old) then Some (lockText new) else Some (lockText later)))
      else (True, (fst x, Suc (snd x)), file))"

section \<open>Facts about the parts\<close>

subsection \<open>Descriptors and the search for an original entry\<close>

lemma js_split_nonempty: "js_split c s \<noteq> []"
  by (induction s) (auto split: list.splits)

lemma every_Inr:
  "every p xs = Inr b \<Longrightarrow> b = list_all (\<lambda>x. p x = Inr True) xs"
  by (induction xs) (auto split: sum.splits if_splits)

lemma every_total:
  "list_all (\<lambda>x. \<exists>b. p x = Inr b) xs \<Longrightarrow> every p xs = Inr (list_all (\<lambda>x. p x = Inr True) xs)"
  by (induction xs) (auto split: sum.splits if_splits)

lemma checkDescriptor_True_iff:
  "checkDescriptor L (Some orig) desc = Inr True \<longleftrightarrow>
     (case descriptorSelector L desc of
        None \<Rightarrow> False
      | Some sel \<Rightarrow> satisfiesCheck L (version orig) sel)"
  by (simp add: checkDescriptor_def descriptorSelector_def split: option.splits)

lemma checkDescriptor_None_not_False:
  "checkDescriptor L None desc \<noteq> Inr False"
  by (simp add: checkDescriptor_def split: option.splits)

lemma every_fits:
  "every (checkDescriptor L (Some orig)) (js_split CHR '','' k) = Inr b \<Longrightarrow> b = fits L k orig"
  by (drule every_Inr) (simp add: fits_def checkDescriptor_True_iff)

lemma every_None_not_False:
  "every (checkDescriptor L None) ds \<noteq> Inr False"
  by (induction ds) (auto split: sum.splits if_splits simp: checkDescriptor_None_not_False)

lemma findOriginal_firstFit:
  "findOriginal L pkgs k origs = Inr r \<Longrightarrow> r = firstFit L pkgs k origs"
proof (induction origs)
  case Nil
  then show ?case by (simp add: firstFit_def)
next
  case (Cons od origs)
  show ?case
  proof (cases "map_of pkgs od")
    case None
    with Cons.prems have False
      using every_None_not_False[of L "js_split CHR '','' k"]
      by (auto split: sum.splits if_splits)
    then show ?thesis ..
  next
    case (Some orig)
    then obtain b where b: "every (checkDescriptor L (Some orig)) (js_split CHR '','' k) = Inr b"
      using Cons.prems by (auto split: sum.splits)
    then have bf: "b = fits L k orig" by (rule every_fits)
    show ?thesis
    proof (cases b)
      case True
      with Cons.prems Some b have "r = Some orig" by simp
      moreover have "firstFit L pkgs k (od # origs) = Some orig"
        using True Some bf by (simp add: firstFit_def)
      ultimately show ?thesis by simp
    next
      case False
      with Cons.prems Some b have "findOriginal L pkgs k origs = Inr r" by simp
      then have "r = firstFit L pkgs k origs" by (rule Cons.IH)
      with False Some bf show ?thesis by (simp add: firstFit_def)
    qed
  qed
qed

lemma every_parse:
  "list_all (\<lambda>desc. descriptorSelector L desc \<noteq> None) ds \<Longrightarrow>
   \<exists>b. every (checkDescriptor L (Some orig)) ds = Inr b"
proof (induction ds)
  case Nil
  show ?case by (rule exI[of _ True]) simp
next
  case (Cons d ds)
  then obtain b where b: "checkDescriptor L (Some orig) d = Inr b"
    by (auto simp: checkDescriptor_def descriptorSelector_def split: option.splits)
  from Cons obtain c where "every (checkDescriptor L (Some orig)) ds = Inr c"
    by auto
  with b show ?case by (cases b) auto
qed

lemma findOriginal_total:
  assumes "descriptorsParse L k" and "set origs \<subseteq> dom (map_of pkgs)"
  shows "findOriginal L pkgs k origs = Inr (firstFit L pkgs k origs)"
proof -
  have "\<exists>r. findOriginal L pkgs k origs = Inr r"
    using assms(2)
  proof (induction origs)
    case Nil
    then show ?case by simp
  next
    case (Cons od origs)
    then obtain orig where o: "map_of pkgs od = Some orig" by auto
    obtain b where "every (checkDescriptor L (Some orig)) (js_split CHR '','' k) = Inr b"
      using every_parse[of L "js_split CHR '','' k" orig] assms(1)
      by (auto simp: descriptorsParse_def)
    with Cons o show ?case by (cases b) auto
  qed
  then show ?thesis using findOriginal_firstFit by blast
qed

subsection \<open>The index of the snapshot\<close>

lemma indexPackages_map_of:
  "indexPackages L pkgs ks idx0 = Inr idx \<Longrightarrow>
   map_of idx n =
     (let new = filter (\<lambda>k. \<not> startsWith k ''__'' \<and>
                   (case map_of pkgs k of None \<Rightarrow> False | Some e \<Rightarrow> canonicalName L e = Inr n)) ks
      in if new = [] then map_of idx0 n
         else Some ((case map_of idx0 n of None \<Rightarrow> [] | Some l \<Rightarrow> l) @ new))"
proof (induction ks arbitrary: idx0)
  case Nil
  then show ?case by simp
next
  case (Cons k ks)
  show ?case
  proof (cases "startsWith k ''__''")
    case True
    with Cons.prems have "indexPackages L pkgs ks idx0 = Inr idx" by simp
    from Cons.IH[OF this] True show ?thesis by simp
  next
    case False
    with Cons.prems obtain e nm where
      e: "map_of pkgs k = Some e" and nm: "canonicalName L e = Inr nm" and
      rest: "indexPackages L pkgs ks
               (case map_of idx0 nm of Some keys \<Rightarrow> AList.update nm (keys @ [k]) idx0
                | None \<Rightarrow> AList.update nm [k] idx0) = Inr idx"
      by (auto simp: canonicalName_def split: option.splits sum.splits)
    from Cons.IH[OF rest] False e nm show ?thesis
      by (auto simp: Let_def AList.update_conv' split: option.splits)
  qed
qed

lemma indexPackages_keysNamed:
  "indexPackages L pkgs (map fst pkgs) [] = Inr idx \<Longrightarrow>
   map_of idx n = (if keysNamed L pkgs n = [] then None else Some (keysNamed L pkgs n))"
  by (drule indexPackages_map_of[where n = n]) (simp add: keysNamed_def Let_def)

lemma keysNamed_member:
  "od \<in> set (keysNamed L pkgs n) \<Longrightarrow>
   \<not> startsWith od ''__'' \<and> (\<exists>orig. map_of pkgs od = Some orig \<and> canonicalName L orig = Inr n)"
  by (auto simp: keysNamed_def split: option.splits)

lemma index_member:
  "indexPackages L pkgs (map fst pkgs) [] = Inr idx \<Longrightarrow> map_of idx n = Some origs \<Longrightarrow>
   od \<in> set origs \<Longrightarrow>
   \<not> startsWith od ''__'' \<and> (\<exists>orig. map_of pkgs od = Some orig \<and> canonicalName L orig = Inr n)"
  using indexPackages_keysNamed[of L pkgs idx n] keysNamed_member[of od L pkgs n]
  by (auto split: if_splits)

lemma indexPackages_total:
  "\<forall>k \<in> set ks. \<not> startsWith k ''__'' \<longrightarrow>
      (\<exists>e n. map_of pkgs k = Some e \<and> canonicalName L e = Inr n) \<Longrightarrow>
   \<exists>idx. indexPackages L pkgs ks idx0 = Inr idx"
proof (induction ks arbitrary: idx0)
  case Nil
  then show ?case by simp
next
  case (Cons k ks)
  then show ?case by (auto simp: canonicalName_def)
qed

lemma firstFit_member:
  "firstFit L pkgs k origs = Some orig \<Longrightarrow>
   \<exists>od \<in> set origs. map_of pkgs od = Some orig \<and> fits L k orig"
  by (auto simp: firstFit_def find_Some_iff split: option.splits)

subsection \<open>The loop over the reloaded mapping\<close>

lemma visitPackage_keys:
  "visitPackage L idx packages pkgs k st = Inr st' \<Longrightarrow> map fst (newPkgs st') = map fst (newPkgs st)"
  by (auto simp: visitPackage_def AList.update_keys
      split: if_splits option.splits sum.splits dest!: map_of_SomeD)
     (metis fst_conv imageI)

lemma visitPackage_other:
  "visitPackage L idx packages pkgs k st = Inr st' \<Longrightarrow> k' \<noteq> k \<Longrightarrow>
   map_of (newPkgs st') k' = map_of (newPkgs st) k'"
  by (auto simp: visitPackage_def AList.update_conv'
      split: if_splits option.splits sum.splits)

lemma visitPackage_printed:
  "visitPackage L idx packages pkgs k st = Inr st' \<Longrightarrow> \<exists>ls. printed st' = printed st @ ls"
  by (auto simp: visitPackage_def split: if_splits option.splits sum.splits)

lemma visitPackage_hasChange:
  "visitPackage L idx packages pkgs k st = Inr st' \<Longrightarrow> hasChange st \<Longrightarrow> hasChange st'"
  by (auto simp: visitPackage_def split: if_splits option.splits sum.splits)

lemma visitPackage_unchanged:
  "visitPackage L idx packages pkgs k st = Inr st' \<Longrightarrow> \<not> hasChange st' \<Longrightarrow> newPkgs st' = newPkgs st"
  by (auto simp: visitPackage_def split: if_splits option.splits sum.splits)

lemma visitPackage_downgrade:
  "visitPackage L idx packages pkgs k st = Inr st' \<Longrightarrow>
   hasChange st = (\<exists>l \<in> set (printed st). isDowngrade l) \<Longrightarrow>
   hasChange st' = (\<exists>l \<in> set (printed st'). isDowngrade l)"
  by (auto simp: visitPackage_def isDowngrade_def split: if_splits option.splits sum.splits)

lemma forEachPackage_keys:
  "forEachPackage L idx packages pkgs ks st = (r, st') \<Longrightarrow> map fst (newPkgs st') = map fst (newPkgs st)"
  by (induction ks arbitrary: st) (auto split: sum.splits dest: visitPackage_keys)

lemma forEachPackage_other:
  "forEachPackage L idx packages pkgs ks st = (r, st') \<Longrightarrow> k \<notin> set ks \<Longrightarrow>
   map_of (newPkgs st') k = map_of (newPkgs st) k"
  by (induction ks arbitrary: st) (auto split: sum.splits dest: visitPackage_other)

lemma forEachPackage_printed:
  "forEachPackage L idx packages pkgs ks st = (r, st') \<Longrightarrow> \<exists>ls. printed st' = printed st @ ls"
proof (induction ks arbitrary: st)
  case Nil
  then show ?case by simp
next
  case (Cons k ks)
  show ?case
  proof (cases "visitPackage L idx packages pkgs k st")
    case (Inl e)
    with Cons.prems show ?thesis by simp
  next
    case (Inr st1)
    with Cons.prems have "forEachPackage L idx packages pkgs ks st1 = (r, st')" by simp
    then obtain ls where "printed st' = printed st1 @ ls" using Cons.IH by blast
    moreover obtain ls1 where "printed st1 = printed st @ ls1"
      using visitPackage_printed[OF Inr] by blast
    ultimately show ?thesis by simp
  qed
qed

lemma forEachPackage_hasChange:
  "forEachPackage L idx packages pkgs ks st = (r, st') \<Longrightarrow> hasChange st \<Longrightarrow> hasChange st'"
  by (induction ks arbitrary: st) (auto split: sum.splits dest: visitPackage_hasChange)

lemma forEachPackage_unchanged:
  "forEachPackage L idx packages pkgs ks st = (r, st') \<Longrightarrow> \<not> hasChange st' \<Longrightarrow> newPkgs st' = newPkgs st"
proof (induction ks arbitrary: st)
  case Nil
  then show ?case by simp
next
  case (Cons k ks)
  show ?case
  proof (cases "visitPackage L idx packages pkgs k st")
    case (Inl e)
    with Cons.prems show ?thesis by simp
  next
    case (Inr st1)
    with Cons.prems have run: "forEachPackage L idx packages pkgs ks st1 = (r, st')" by simp
    then have "newPkgs st' = newPkgs st1" using Cons.IH Cons.prems(2) by blast
    moreover have "\<not> hasChange st1" using forEachPackage_hasChange[OF run] Cons.prems(2) by blast
    then have "newPkgs st1 = newPkgs st" using visitPackage_unchanged[OF Inr] by blast
    ultimately show ?thesis by simp
  qed
qed

lemma forEachPackage_downgrade:
  "forEachPackage L idx packages pkgs ks st = (r, st') \<Longrightarrow>
   hasChange st = (\<exists>l \<in> set (printed st). isDowngrade l) \<Longrightarrow>
   hasChange st' = (\<exists>l \<in> set (printed st'). isDowngrade l)"
proof (induction ks arbitrary: st)
  case Nil
  then show ?case by simp
next
  case (Cons k ks)
  show ?case
  proof (cases "visitPackage L idx packages pkgs k st")
    case (Inl e)
    with Cons.prems show ?thesis by simp
  next
    case (Inr st1)
    with Cons.prems have run: "forEachPackage L idx packages pkgs ks st1 = (r, st')" by simp
    from visitPackage_downgrade[OF Inr Cons.prems(2)] Cons.IH[OF run] show ?thesis by blast
  qed
qed

lemma forEachPackage_visit:
  assumes "forEachPackage L idx packages pkgs ks st = (None, st')"
    and "distinct ks" and "k \<in> set ks"
  shows "\<exists>st1 st2. visitPackage L idx packages pkgs k st1 = Inr st2
           \<and> map_of (newPkgs st1) k = map_of (newPkgs st) k
           \<and> map_of (newPkgs st') k = map_of (newPkgs st2) k
           \<and> (\<exists>ls. printed st1 = printed st @ ls)
           \<and> (\<exists>ls. printed st' = printed st2 @ ls)
           \<and> (hasChange st2 \<longrightarrow> hasChange st')"
  using assms
proof (induction ks arbitrary: st)
  case Nil
  then show ?case by simp
next
  case (Cons k' ks)
  from Cons.prems(1) obtain st1 where
    v: "visitPackage L idx packages pkgs k' st = Inr st1" and
    run: "forEachPackage L idx packages pkgs ks st1 = (None, st')"
    by (auto split: sum.splits)
  show ?case
  proof (cases "k = k'")
    case True
    with Cons.prems(2) have "k \<notin> set ks" by simp
    then have "map_of (newPkgs st') k = map_of (newPkgs st1) k"
      using forEachPackage_other[OF run] by blast
    moreover have "\<exists>ls. printed st' = printed st1 @ ls" using forEachPackage_printed[OF run] .
    moreover have "hasChange st1 \<longrightarrow> hasChange st'" using forEachPackage_hasChange[OF run] by blast
    ultimately show ?thesis using v True by (intro exI[of _ st] exI[of _ st1]) simp
  next
    case False
    with Cons.prems have "k \<in> set ks" "distinct ks" by auto
    from Cons.IH[OF run this(2) this(1)] obtain sa sb where
      a: "visitPackage L idx packages pkgs k sa = Inr sb"
         "map_of (newPkgs sa) k = map_of (newPkgs st1) k"
         "map_of (newPkgs st') k = map_of (newPkgs sb) k"
         "\<exists>ls. printed sa = printed st1 @ ls"
         "\<exists>ls. printed st' = printed sb @ ls"
         "hasChange sb \<longrightarrow> hasChange st'"
      by blast
    have "map_of (newPkgs st1) k = map_of (newPkgs st) k"
      using visitPackage_other[OF v False] .
    moreover have "\<exists>ls. printed sa = printed st @ ls"
      using a(4) visitPackage_printed[OF v] by auto
    ultimately show ?thesis using a by (intro exI[of _ sa] exI[of _ sb]) simp
  qed
qed

lemma visitPackage_downgrade_names:
  "visitPackage L idx packages pkgs k st = Inr st' \<Longrightarrow>
   Log (Downgrade nm a b) \<in> set (printed st') \<Longrightarrow>
   Log (Downgrade nm a b) \<in> set (printed st) \<or> (map_of idx nm \<noteq> None \<and> isMatch L nm packages = Some False)"
  by (auto simp: visitPackage_def split: if_splits option.splits sum.splits)

lemma forEachPackage_downgrade_names:
  "forEachPackage L idx packages pkgs ks st = (r, st') \<Longrightarrow>
   Log (Downgrade nm a b) \<in> set (printed st') \<Longrightarrow>
   Log (Downgrade nm a b) \<in> set (printed st) \<or> (map_of idx nm \<noteq> None \<and> isMatch L nm packages = Some False)"
proof (induction ks arbitrary: st)
  case Nil
  then show ?case by simp
next
  case (Cons k ks)
  show ?case
  proof (cases "visitPackage L idx packages pkgs k st")
    case (Inl e)
    with Cons.prems show ?thesis by simp
  next
    case (Inr st1)
    with Cons.prems have "forEachPackage L idx packages pkgs ks st1 = (r, st')" by simp
    from Cons.IH[OF this Cons.prems(2)] visitPackage_downgrade_names[OF Inr] show ?thesis by blast
  qed
qed

lemma visitPackage_lines:
  "visitPackage L idx packages pkgs k st = Inr st' \<Longrightarrow> l \<in> set (printed st') \<Longrightarrow>
   l \<in> set (printed st) \<or> isDowngrade l \<or> (\<not> startsWith k ''__'' \<and> l \<in> about k)"
  by (auto simp: visitPackage_def isDowngrade_def about_def split: if_splits option.splits sum.splits)

lemma forEachPackage_lines:
  "forEachPackage L idx packages pkgs ks st = (r, st') \<Longrightarrow> l \<in> set (printed st') \<Longrightarrow>
   l \<in> set (printed st) \<or> isDowngrade l \<or> (\<exists>k. \<not> startsWith k ''__'' \<and> l \<in> about k)"
proof (induction ks arbitrary: st)
  case Nil
  then show ?case by simp
next
  case (Cons k ks)
  show ?case
  proof (cases "visitPackage L idx packages pkgs k st")
    case (Inl e)
    with Cons.prems show ?thesis by simp
  next
    case (Inr st1)
    with Cons.prems have "forEachPackage L idx packages pkgs ks st1 = (r, st')" by simp
    from Cons.IH[OF this Cons.prems(2)] visitPackage_lines[OF Inr] show ?thesis by blast
  qed
qed

lemma visitPackage_value:
  assumes "visitPackage L idx packages pkgs k st = Inr st'"
    and "map_of (newPkgs st') k' = Some e"
  shows "map_of (newPkgs st) k' = Some e
       \<or> (k' = k \<and> \<not> startsWith k ''__''
           \<and> (\<exists>cur nm origs. map_of (newPkgs st) k = Some cur
                 \<and> canonicalName L cur = Inr nm
                 \<and> isMatch L nm packages = Some False
                 \<and> map_of idx nm = Some origs
                 \<and> firstFit L pkgs k origs = Some e
                 \<and> version e \<noteq> version cur))"
proof (cases "newPkgs st' = newPkgs st")
  case True
  with assms(2) show ?thesis by simp
next
  case False
  with assms(1) obtain cur nm origs orig where
    m: "\<not> startsWith k ''__''" and
    c: "map_of (newPkgs st) k = Some cur" and
    n: "canonicalName L cur = Inr nm" and
    i: "map_of idx nm = Some origs" and
    p: "isMatch L nm packages = Some False" and
    f: "findOriginal L pkgs k origs = Inr (Some orig)" and
    v: "version orig \<noteq> version cur" and
    s: "newPkgs st' = AList.update k orig (newPkgs st)"
    by (auto simp: visitPackage_def canonicalName_def
        split: if_splits option.splits sum.splits)
  from f have ff: "firstFit L pkgs k origs = Some orig"
    using findOriginal_firstFit by fastforce
  show ?thesis
  proof (cases "k' = k")
    case True
    with assms(2) s have "e = orig" by (simp add: AList.update_conv')
    with True m c n i p ff v show ?thesis by blast
  next
    case False
    with assms(2) s show ?thesis by (simp add: AList.update_conv')
  qed
qed

lemma forEachPackage_value:
  "forEachPackage L idx packages pkgs ks st = (r, st') \<Longrightarrow> distinct ks \<Longrightarrow>
   map_of (newPkgs st') k = Some e \<Longrightarrow>
   map_of (newPkgs st) k = Some e
   \<or> (k \<in> set ks \<and> \<not> startsWith k ''__''
       \<and> (\<exists>cur nm origs. map_of (newPkgs st) k = Some cur
             \<and> canonicalName L cur = Inr nm
             \<and> isMatch L nm packages = Some False
             \<and> map_of idx nm = Some origs
             \<and> firstFit L pkgs k origs = Some e
             \<and> version e \<noteq> version cur))"
proof (induction ks arbitrary: st)
  case Nil
  then show ?case by simp
next
  case (Cons k0 ks)
  show ?case
  proof (cases "visitPackage L idx packages pkgs k0 st")
    case (Inl err)
    with Cons.prems show ?thesis by simp
  next
    case (Inr s1)
    with Cons.prems(1) have run: "forEachPackage L idx packages pkgs ks s1 = (r, st')" by simp
    from Cons.prems(2) have d: "distinct ks" and nk: "k0 \<notin> set ks" by simp_all
    from Cons.IH[OF run d Cons.prems(3)]
    consider
      (kept) "map_of (newPkgs s1) k = Some e"
    | (later) "k \<in> set ks" "\<not> startsWith k ''__''"
        "\<exists>cur nm origs. map_of (newPkgs s1) k = Some cur
             \<and> canonicalName L cur = Inr nm
             \<and> isMatch L nm packages = Some False
             \<and> map_of idx nm = Some origs
             \<and> firstFit L pkgs k origs = Some e
             \<and> version e \<noteq> version cur"
      by blast
    then show ?thesis
    proof cases
      case kept
      from visitPackage_value[OF Inr kept] show ?thesis by auto
    next
      case later
      from later(1) nk have "k \<noteq> k0" by blast
      with Inr have "map_of (newPkgs s1) k = map_of (newPkgs st) k" by (rule visitPackage_other)
      with later show ?thesis by simp
    qed
  qed
qed

lemma forEachPackage_lines_in:
  "forEachPackage L idx packages pkgs ks st = (r, st') \<Longrightarrow> l \<in> set (printed st') \<Longrightarrow>
   l \<in> set (printed st) \<or> isDowngrade l \<or> (\<exists>k \<in> set ks. l \<in> about k)"
proof (induction ks arbitrary: st)
  case Nil
  then show ?case by simp
next
  case (Cons k ks)
  show ?case
  proof (cases "visitPackage L idx packages pkgs k st")
    case (Inl e)
    with Cons.prems show ?thesis by simp
  next
    case (Inr st1)
    with Cons.prems have "forEachPackage L idx packages pkgs ks st1 = (r, st')" by simp
    from Cons.IH[OF this Cons.prems(2)] visitPackage_lines[OF Inr, of l] show ?thesis by auto
  qed
qed

lemma forEachPackage_append:
  "forEachPackage L idx packages pkgs (xs @ ys) st =
     (case forEachPackage L idx packages pkgs xs st of
        (Some e, st') \<Rightarrow> (Some e, st')
      | (None, st') \<Rightarrow> forEachPackage L idx packages pkgs ys st')"
  by (induction xs arbitrary: st) (auto split: sum.splits)

subsection \<open>The pass as a whole\<close>

lemma diffPass_visit:
  assumes "diffPass L idx packages pkgs loaded = (None, st)"
    and "distinct (map fst loaded)"
    and "map_of loaded k = Some e"
  obtains st1 st2 where
    "visitPackage L idx packages pkgs k st1 = Inr st2"
    "map_of (newPkgs st1) k = Some e"
    "map_of (newPkgs st) k = map_of (newPkgs st2) k"
    "set (printed st2) \<subseteq> set (printed st)"
    "hasChange st2 \<longrightarrow> hasChange st"
proof -
  from assms(3) have "k \<in> set (map fst loaded)"
    by (metis map_of_eq_None_iff option.distinct(1) set_map)
  from forEachPackage_visit[OF assms(1)[unfolded diffPass_def] assms(2) this] assms(3)
  obtain st1 st2 where
    "visitPackage L idx packages pkgs k st1 = Inr st2"
    "map_of (newPkgs st1) k = Some e"
    "map_of (newPkgs st) k = map_of (newPkgs st2) k"
    "\<exists>ls. printed st = printed st2 @ ls"
    "hasChange st2 \<longrightarrow> hasChange st"
    by auto
  moreover from this(4) have "set (printed st2) \<subseteq> set (printed st)" by auto
  ultimately show thesis using that by blast
qed

lemma upgradeSelectedPackages_cases:
  assumes "upgradeSelectedPackages L idx packages pkgs w = (r, w')"
  shows "(\<exists>e. loadPackages L w = Inl e \<and> r = Inl e \<and> w' = w)
       \<or> (\<exists>loaded e st. loadPackages L w = Inr loaded
             \<and> diffPass L idx packages pkgs loaded = (Some e, st)
             \<and> r = Inl e \<and> w' = w\<lparr>console := console w @ printed st\<rparr>)
       \<or> (\<exists>loaded st. loadPackages L w = Inr loaded
             \<and> diffPass L idx packages pkgs loaded = (None, st)
             \<and> r = Inr (hasChange st)
             \<and> w' = (if hasChange st
                     then w\<lparr>lockFile := Some (yarnLockHeader @ stringifySyml L (newPkgs st)),
                            console := console w @ printed st\<rparr>
                     else w\<lparr>console := console w @ printed st\<rparr>))"
  using assms
  by (auto simp: upgradeSelectedPackages_def split: sum.splits prod.splits option.splits if_splits)

lemma diffPass_downgrade:
  "diffPass L idx packages pkgs loaded = (r, st) \<Longrightarrow>
   hasChange st = (\<exists>l \<in> set (printed st). isDowngrade l)"
  unfolding diffPass_def by (drule forEachPackage_downgrade) simp_all

lemma banner_lines:
  "map (take 1) (js_split (CHR 0x0A) yarnLockHeader) = [''#'', ''#'', [], []]"
  by (simp add: yarnLockHeader_def)

subsection \<open>The first scenario, evaluated\<close>

lemma demo_index: "indexPackages scenario original (map fst original) [] = Inr demoIndex"
  by code_simp

lemma demo_pass:
  "diffPass scenario demoIndex ''pkg-a'' original bumped =
     (None, \<lparr>newPkgs = reverted, hasChange = True,
             printed = [Log (Ignoring ''pkg-a@npm:^1.0.0''),
                        Log (Downgrade ''pkg-b'' ''2.1.0'' ''2.0.0''),
                        Warn (NoPackageFound ''pkg-b@npm:^3.0.0''),
                        Warn (NewPackage ''pkg-c@npm:^3.0.0'')]\<rparr>)"
  by code_simp

lemma bumped_distinct: "distinct (map fst bumped)"
  by (simp add: bumped_def metadata_def)

lemma visitPackage_metadata:
  "startsWith k ''__'' \<Longrightarrow> visitPackage L idx packages pkgs k st = Inr st"
  unfolding visitPackage_def by (rule if_P)

lemma visitPackage_keeps_metadata:
  assumes "visitPackage L idx packages pkgs k' st = Inr st1" and "startsWith k ''__''"
  shows "map_of (newPkgs st1) k = map_of (newPkgs st) k"
proof (cases "k' = k")
  case True
  have "visitPackage L idx packages pkgs k' st = Inr st"
    unfolding True using assms(2) by (rule visitPackage_metadata)
  with assms(1) have "Inr st1 = (Inr st :: error + pass)" by (rule subst)
  then have "st1 = st" by (rule sum.inject(2)[THEN iffD1])
  then show ?thesis by (rule arg_cong)
next
  case False
  then have "k \<noteq> k'" by (rule not_sym)
  with assms(1) show ?thesis by (rule visitPackage_other)
qed

lemma forEachPackage_metadata:
  "forEachPackage L idx packages pkgs ks st = (r, st') \<Longrightarrow> startsWith k ''__'' \<Longrightarrow>
   map_of (newPkgs st') k = map_of (newPkgs st) k"
proof (induction ks arbitrary: st)
  case Nil
  from Nil(1) have "st' = st" by simp
  then show ?case by (rule arg_cong)
next
  case (Cons k' ks)
  show ?case
  proof (cases "visitPackage L idx packages pkgs k' st")
    case (Inl err)
    with Cons.prems(1) have "st' = st" by simp
    then show ?thesis by (rule arg_cong)
  next
    case (Inr st1)
    with Cons.prems(1) have run: "forEachPackage L idx packages pkgs ks st1 = (r, st')" by simp
    have "map_of (newPkgs st') k = map_of (newPkgs st1) k"
      using run Cons.prems(2) by (rule Cons.IH)
    also have "\<dots> = map_of (newPkgs st) k"
      using Inr Cons.prems(2) by (rule visitPackage_keeps_metadata)
    finally show ?thesis .
  qed
qed

lemma diffPass_metadata:
  assumes "diffPass L idx packages pkgs loaded = (r, st)" and "startsWith k ''__''"
  shows "map_of (newPkgs st) k = map_of loaded k \<and> set (printed st) \<inter> about k = {}"
proof -
  have "l \<notin> about k" if "l \<in> set (printed st)" for l
  proof -
    from forEachPackage_lines[OF assms(1)[unfolded diffPass_def] that]
    have "isDowngrade l \<or> (\<exists>k'. \<not> startsWith k' ''__'' \<and> l \<in> about k')" by simp
    moreover have "\<not> isDowngrade l" if "l \<in> about k"
      using that by (auto simp: about_def isDowngrade_def)
    moreover have "k' = k" if "l \<in> about k" "l \<in> about k'" for k'
      using that by (auto simp: about_def)
    ultimately show ?thesis using assms(2) by blast
  qed
  moreover have "map_of (newPkgs st) k = map_of loaded k"
    using forEachPackage_metadata[OF assms(1)[unfolded diffPass_def] assms(2)] by simp
  ultimately show ?thesis by blast
qed

lemma about_same_key: "l \<in> about k \<Longrightarrow> l \<in> about k' \<Longrightarrow> k' = k"
  by (auto simp: about_def)

lemma about_not_downgrade: "l \<in> about k \<Longrightarrow> \<not> isDowngrade l"
  by (auto simp: about_def isDowngrade_def)

lemma visitPackage_unparsable:
  assumes "map_of (newPkgs st) k = Some e" and "\<not> startsWith k ''__''"
    and "canonicalName L e = Inl err"
  shows "visitPackage L idx packages pkgs k st = Inl err"
  using assms by (simp add: visitPackage_def canonicalName_def)

lemma indexPackages_unparsable:
  assumes "map_of pkgs k = Some e" and "\<not> startsWith k ''__''"
    and "canonicalName L e = Inl err"
  shows "k \<in> set ks \<Longrightarrow> \<exists>err'. indexPackages L pkgs ks idx0 = Inl err'"
proof (induction ks arbitrary: idx0)
  case Nil
  then show ?case by simp
next
  case (Cons k' ks)
  show ?case
  proof (cases "k' = k")
    case True
    with assms show ?thesis by (simp add: canonicalName_def)
  next
    case False
    with Cons.prems have "k \<in> set ks" by simp
    from Cons.IH[OF this] show ?thesis
      by (auto split: option.splits sum.splits)
  qed
qed

subsection \<open>Entries that cannot be decomposed\<close>

lemma checkDescriptor_unparsable:
  "descriptorSelector L desc = None \<Longrightarrow> \<exists>err. checkDescriptor L origPkg desc = Inl err"
  by (auto simp: checkDescriptor_def descriptorSelector_def split: option.splits)

lemma every_reachesUnparsable:
  "reachesUnparsable L (version orig) ds \<Longrightarrow>
   \<exists>err. every (checkDescriptor L (Some orig)) ds = Inl err"
proof (induction ds)
  case Nil
  then show ?case by simp
next
  case (Cons d ds)
  show ?case
  proof (cases "descriptorSelector L d")
    case None
    from checkDescriptor_unparsable[OF this, of "Some orig"] show ?thesis by auto
  next
    case (Some sel)
    with Cons.prems have ok: "satisfiesCheck L (version orig) sel"
      and rest: "reachesUnparsable L (version orig) ds" by simp_all
    from Some ok have "checkDescriptor L (Some orig) d = Inr True"
      by (simp add: checkDescriptor_True_iff)
    with Cons.IH[OF rest] show ?thesis by auto
  qed
qed

lemma visitPackage_undecomposable:
  assumes "map_of (newPkgs st) k = Some e" and "\<not> startsWith k ''__''"
    and "undecomposable L packages pkgs k e"
    and "indexPackages L pkgs (map fst pkgs) [] = Inr idx"
  shows "\<exists>err. visitPackage L idx packages pkgs k st = Inl err"
proof (cases "canonicalName L e")
  case (Inl err)
  from visitPackage_unparsable[OF assms(1,2) this] show ?thesis by blast
next
  case (Inr nm)
  with assms(3) obtain od rest orig where
    p: "isMatch L nm packages = Some False" and
    ks: "keysNamed L pkgs nm = od # rest" and
    o: "map_of pkgs od = Some orig" and
    r: "reachesUnparsable L (version orig) (js_split CHR '','' k)"
    by (auto simp: undecomposable_def split: list.splits option.splits)
  from indexPackages_keysNamed[OF assms(4), of nm] ks
  have i: "map_of idx nm = Some (od # rest)" by simp
  from every_reachesUnparsable[OF r] obtain err where
    "every (checkDescriptor L (Some orig)) (js_split CHR '','' k) = Inl err" by blast
  with o have "findOriginal L pkgs k (od # rest) = Inl err" by simp
  with assms(1,2) Inr p i have "visitPackage L idx packages pkgs k st = Inl err"
    by (simp add: visitPackage_def canonicalName_def)
  then show ?thesis by blast
qed

lemma diffPass_undecomposable:
  assumes idx: "indexPackages L pkgs (map fst pkgs) [] = Inr idx"
    and dist: "distinct (map fst loaded)"
    and keys: "map fst loaded = pre @ k # post"
    and e: "map_of loaded k = Some e"
    and meta: "\<not> startsWith k ''__''"
    and bad: "undecomposable L packages pkgs k e"
  shows "\<exists>err st. diffPass L idx packages pkgs loaded = (Some err, st)
           \<and> (\<forall>k' \<in> set (k # post). set (printed st) \<inter> about k' = {})"
proof -
  define st0 where "st0 = \<lparr>newPkgs = loaded, hasChange = False, printed = []\<rparr>"
  obtain r1 s1 where first: "forEachPackage L idx packages pkgs pre st0 = (r1, s1)"
    by (cases "forEachPackage L idx packages pkgs pre st0")
  from dist keys have dpre: "distinct (pre @ k # post)" by simp
  then have kpre: "k \<notin> set pre" by simp
  have quiet: "set (printed s1) \<inter> about k' = {}" if "k' \<in> set (k # post)" for k'
  proof -
    from that dpre have k': "k' \<notin> set pre" by auto
    have "l \<notin> about k'" if l: "l \<in> set (printed s1)" for l
    proof
      assume a: "l \<in> about k'"
      from forEachPackage_lines_in[OF first l] about_not_downgrade[OF a]
      obtain k0 where "k0 \<in> set pre" "l \<in> about k0" by (auto simp: st0_def)
      with about_same_key[OF a] k' show False by blast
    qed
    then show ?thesis by blast
  qed
  have whole: "diffPass L idx packages pkgs loaded =
      (case (r1, s1) of
         (Some err, st') \<Rightarrow> (Some err, st')
       | (None, st') \<Rightarrow> forEachPackage L idx packages pkgs (k # post) st')"
    unfolding diffPass_def keys st0_def[symmetric] forEachPackage_append first ..
  show ?thesis
  proof (cases r1)
    case (Some err)
    with whole have "diffPass L idx packages pkgs loaded = (Some err, s1)" by simp
    with quiet show ?thesis by blast
  next
    case None
    have "map_of (newPkgs s1) k = map_of (newPkgs st0) k"
      using first kpre by (rule forEachPackage_other)
    with e have "map_of (newPkgs s1) k = Some e" by (simp add: st0_def)
    from visitPackage_undecomposable[OF this meta bad idx] obtain err where
      "visitPackage L idx packages pkgs k s1 = Inl err" by blast
    with whole None have "diffPass L idx packages pkgs loaded = (Some err, s1)" by simp
    with quiet show ?thesis by blast
  qed
qed

lemma loopAfter_resolveLoop:
  "loopAfter n sh L idx packages pkgs c0 w0 = Some (c, w) \<Longrightarrow>
   resolveLoop sh L idx packages pkgs c0 w0 = resolveLoop sh L idx packages pkgs c w"
proof (induction n arbitrary: c0 w0)
  case 0
  then show ?case by simp
next
  case (Suc n)
  from Suc.prems obtain u w1 changed w2 where
    r1: "run sh ''jlpm install'' w0 = (Inr u, w1)" and
    r2: "upgradeSelectedPackages L idx packages pkgs w1 = (Inr changed, w2)" and
    go: "changed \<and> c0 > 0" and
    rest: "loopAfter n sh L idx packages pkgs (c0 - 1) w2 = Some (c, w)"
    by (auto split: prod.splits sum.splits if_splits)
  from r1 r2 go have
    "resolveLoop sh L idx packages pkgs c0 w0 = resolveLoop sh L idx packages pkgs (c0 - 1) w2"
    by (simp add: resolveLoop.simps[of sh L idx packages pkgs c0 w0])
  with Suc.IH[OF rest] show ?case by simp
qed

section \<open>The claims about one pass\<close>

text \<open>
  Claim C10. The mapping a pass ends with (the one that is written when something
  changed) has the keys of the reloaded mapping, in the same order, whether the pass
  ends normally or with an exception: no key is added or removed. When the reloaded
  mapping is an object (its keys are distinct), the value at a key is the reloaded
  entry, or else the key is no metadata, the name of the reloaded entry is in the
  index and out of the pattern, and the value is the first original entry listed
  under that name that fits the descriptors of the key, with a version other than the
  reloaded one.
\<close>

theorem diff_pass_keeps_keys:
  assumes "diffPass L idx packages pkgs loaded = (r, st)"
  shows "map fst (newPkgs st) = map fst loaded \<and>
         (distinct (map fst loaded) \<longrightarrow>
            (\<forall>k e. map_of (newPkgs st) k = Some e \<longrightarrow>
               map_of loaded k = Some e
               \<or> (\<not> startsWith k ''__''
                   \<and> (\<exists>cur nm origs. map_of loaded k = Some cur
                         \<and> canonicalName L cur = Inr nm
                         \<and> isMatch L nm packages = Some False
                         \<and> map_of idx nm = Some origs
                         \<and> firstFit L pkgs k origs = Some e
                         \<and> version e \<noteq> version cur))))"
proof
  show "map fst (newPkgs st) = map fst loaded"
    using forEachPackage_keys[OF assms[unfolded diffPass_def]] by simp
next
  show "distinct (map fst loaded) \<longrightarrow>
            (\<forall>k e. map_of (newPkgs st) k = Some e \<longrightarrow>
               map_of loaded k = Some e
               \<or> (\<not> startsWith k ''__''
                   \<and> (\<exists>cur nm origs. map_of loaded k = Some cur
                         \<and> canonicalName L cur = Inr nm
                         \<and> isMatch L nm packages = Some False
                         \<and> map_of idx nm = Some origs
                         \<and> firstFit L pkgs k origs = Some e
                         \<and> version e \<noteq> version cur)))"
  proof (intro impI allI)
    fix k e
    assume d: "distinct (map fst loaded)" and v: "map_of (newPkgs st) k = Some e"
    from forEachPackage_value[OF assms[unfolded diffPass_def] d v]
    show "map_of loaded k = Some e
               \<or> (\<not> startsWith k ''__''
                   \<and> (\<exists>cur nm origs. map_of loaded k = Some cur
                         \<and> canonicalName L cur = Inr nm
                         \<and> isMatch L nm packages = Some False
                         \<and> map_of idx nm = Some origs
                         \<and> firstFit L pkgs k origs = Some e
                         \<and> version e \<noteq> version cur))"
      by auto
  qed
qed

theorem diff_pass_keeps_keys_witness:
  "map fst (newPkgs (snd (diffPass scenario demoIndex ''pkg-a'' original bumped))) = map fst bumped
   \<and> (\<exists>cur nm origs. map_of bumped ''pkg-b@npm:^2.0.0'' = Some cur
         \<and> canonicalName scenario cur = Inr nm
         \<and> isMatch scenario nm ''pkg-a'' = Some False
         \<and> map_of demoIndex nm = Some origs
         \<and> firstFit scenario original ''pkg-b@npm:^2.0.0'' origs
             = Some (entry ''2.0.0'' ''pkg-b@npm:2.0.0''))"
proof
  note pass = diff_pass_keeps_keys[OF demo_pass, unfolded pass.select_convs]
  from pass[THEN conjunct1]
  show "map fst (newPkgs (snd (diffPass scenario demoIndex ''pkg-a'' original bumped))) = map fst bumped"
    by (simp add: demo_pass)
  have a: "map_of reverted ''pkg-b@npm:^2.0.0'' = Some (entry ''2.0.0'' ''pkg-b@npm:2.0.0'')"
    by (simp add: reverted_def metadata_def)
  have b: "map_of bumped ''pkg-b@npm:^2.0.0'' \<noteq> Some (entry ''2.0.0'' ''pkg-b@npm:2.0.0'')"
    by (simp add: bumped_def metadata_def entry_def)
  from pass[THEN conjunct2, THEN mp, OF bumped_distinct, THEN spec, THEN spec, THEN mp, OF a] b
  show "\<exists>cur nm origs. map_of bumped ''pkg-b@npm:^2.0.0'' = Some cur
         \<and> canonicalName scenario cur = Inr nm
         \<and> isMatch scenario nm ''pkg-a'' = Some False
         \<and> map_of demoIndex nm = Some origs
         \<and> firstFit scenario original ''pkg-b@npm:^2.0.0'' origs
             = Some (entry ''2.0.0'' ''pkg-b@npm:2.0.0'')"
    by blast
qed

text \<open>
  Claim C9. An entry whose canonical name is not in the index of the snapshot is a new
  package: the pass prints the warning for its key and leaves the entry as the install
  wrote it; no downgrade of that name is printed. The pattern is not consulted.
\<close>

theorem new_package_kept:
  assumes "diffPass L idx packages pkgs loaded = (None, st)"
    and "distinct (map fst loaded)"
    and "map_of loaded k = Some e"
    and "\<not> startsWith k ''__''"
    and "canonicalName L e = Inr nm"
    and "map_of idx nm = None"
  shows "map_of (newPkgs st) k = Some e
       \<and> Warn (NewPackage k) \<in> set (printed st)
       \<and> (\<forall>old new. Log (Downgrade nm old new) \<notin> set (printed st))"
proof -
  from diffPass_visit[OF assms(1-3)] obtain st1 st2 where
    v: "visitPackage L idx packages pkgs k st1 = Inr st2" and
    e1: "map_of (newPkgs st1) k = Some e" and
    e2: "map_of (newPkgs st) k = map_of (newPkgs st2) k" and
    pr: "set (printed st2) \<subseteq> set (printed st)"
    by blast
  from v e1 assms(4-6) have st2: "st2 = st1\<lparr>printed := printed st1 @ [Warn (NewPackage k)]\<rparr>"
    by (simp add: visitPackage_def canonicalName_def)
  have "map_of (newPkgs st) k = Some e" using e2 e1 st2 by simp
  moreover have "Warn (NewPackage k) \<in> set (printed st)" using pr st2 by auto
  moreover have "Log (Downgrade nm old new) \<notin> set (printed st)" for old new
    using forEachPackage_downgrade_names[OF assms(1)[unfolded diffPass_def], of nm old new] assms(6)
    by auto
  ultimately show ?thesis by blast
qed

theorem new_package_kept_witness:
  "map_of (newPkgs (snd (diffPass scenario demoIndex ''pkg-a'' original bumped))) ''pkg-c@npm:^3.0.0''
     = Some (entry ''3.0.0'' ''pkg-c@npm:3.0.0'')
   \<and> Warn (NewPackage ''pkg-c@npm:^3.0.0'')
       \<in> set (printed (snd (diffPass scenario demoIndex ''pkg-a'' original bumped)))"
proof -
  have a: "map_of bumped ''pkg-c@npm:^3.0.0'' = Some (entry ''3.0.0'' ''pkg-c@npm:3.0.0'')"
    by (simp add: bumped_def metadata_def)
  have b: "\<not> startsWith ''pkg-c@npm:^3.0.0'' ''__''"
    by (simp add: startsWith_def)
  have c: "canonicalName scenario (entry ''3.0.0'' ''pkg-c@npm:3.0.0'') = Inr ''pkg-c''"
    by code_simp
  have d: "map_of demoIndex ''pkg-c'' = None"
    by (simp add: demoIndex_def)
  from new_package_kept[OF demo_pass bumped_distinct a b c d] show ?thesis
    by (simp add: demo_pass)
qed

text \<open>
  Claim C8. A key that starts with two underscores is no package entry: the index of
  the snapshot lists no such key; a pass, however it ends, leaves the entry at such a
  key as it was loaded and prints no line about the key; and the mapping that a pass
  writes has at every such key the entry that was loaded.
\<close>

theorem metadata_passes_through:
  "(indexPackages L pkgs (map fst pkgs) [] = Inr idx \<longrightarrow>
      (\<forall>nm origs. map_of idx nm = Some origs \<longrightarrow> (\<forall>od \<in> set origs. \<not> startsWith od ''__'')))
   \<and> (diffPass L idx packages pkgs loaded = (r, st) \<and> startsWith k ''__'' \<longrightarrow>
        map_of (newPkgs st) k = map_of loaded k \<and> set (printed st) \<inter> about k = {})
   \<and> (upgradeSelectedPackages L idx packages pkgs w = (Inr True, w') \<longrightarrow>
        (\<exists>was written. loadPackages L w = Inr was
           \<and> lockFile w' = Some (yarnLockHeader @ stringifySyml L written)
           \<and> (\<forall>k. startsWith k ''__'' \<longrightarrow> map_of written k = map_of was k)))"
proof (intro conjI impI)
  assume "indexPackages L pkgs (map fst pkgs) [] = Inr idx"
  then show "\<forall>nm origs. map_of idx nm = Some origs \<longrightarrow> (\<forall>od \<in> set origs. \<not> startsWith od ''__'')"
    using index_member by blast
next
  assume a: "diffPass L idx packages pkgs loaded = (r, st) \<and> startsWith k ''__''"
  then show "map_of (newPkgs st) k = map_of loaded k" using diffPass_metadata by blast
  from a show "set (printed st) \<inter> about k = {}" using diffPass_metadata by blast
next
  assume "upgradeSelectedPackages L idx packages pkgs w = (Inr True, w')"
  from upgradeSelectedPackages_cases[OF this] obtain was st' where
    l: "loadPackages L w = Inr was" and
    d: "diffPass L idx packages pkgs was = (None, st')" and
    h: "hasChange st'" and
    w': "w' = w\<lparr>lockFile := Some (yarnLockHeader @ stringifySyml L (newPkgs st')),
                 console := console w @ printed st'\<rparr>"
    by (auto split: if_splits)
  have "\<forall>k. startsWith k ''__'' \<longrightarrow> map_of (newPkgs st') k = map_of was k"
    using diffPass_metadata[OF d] by blast
  with l w' show "\<exists>was written. loadPackages L w = Inr was
           \<and> lockFile w' = Some (yarnLockHeader @ stringifySyml L written)
           \<and> (\<forall>k. startsWith k ''__'' \<longrightarrow> map_of written k = map_of was k)"
    by auto
qed

theorem metadata_passes_through_witness:
  "map_of (newPkgs (snd (diffPass scenario demoIndex ''pkg-a'' original bumped))) ''__metadata''
     = map_of bumped ''__metadata''
   \<and> set (printed (snd (diffPass scenario demoIndex ''pkg-a'' original bumped)))
       \<inter> about ''__metadata'' = {}"
proof -
  have "diffPass scenario demoIndex ''pkg-a'' original bumped
          = (fst (diffPass scenario demoIndex ''pkg-a'' original bumped),
             snd (diffPass scenario demoIndex ''pkg-a'' original bumped))
        \<and> startsWith ''__metadata'' ''__''"
    by (simp add: startsWith_def)
  with metadata_passes_through[where L = scenario and pkgs = original and idx = demoIndex
       and packages = "''pkg-a''" and loaded = bumped
       and r = "fst (diffPass scenario demoIndex ''pkg-a'' original bumped)"
       and st = "snd (diffPass scenario demoIndex ''pkg-a'' original bumped)"
       and k = "''__metadata''" and w = "startWorld bumped" and w' = "startWorld bumped"]
  show ?thesis by blast
qed



text \<open>
  Claim C7. \<^verbatim>\<open>upgradeSelectedPackages\<close> never touches anything but the lock file and
  the console. It returns true exactly when the pass printed a downgrade; then, and
  only then, the lock file is written, and what is written is the banner followed by
  the serialisation of the mapping the pass ended with. When it returns false, or
  throws, the lock file is what it was. The banner is two lines that start with
  \<^verbatim>\<open>#\<close> and an empty line.
\<close>

theorem lock_written_iff_changed:
  assumes "upgradeSelectedPackages L idx packages pkgs w = (r, w')"
  shows "outside w' = outside w
       \<and> (\<exists>ls. console w' = console w @ ls
            \<and> (case r of
                  Inl err \<Rightarrow> lockFile w' = lockFile w
                | Inr changed \<Rightarrow>
                    changed = (\<exists>l \<in> set ls. isDowngrade l)
                    \<and> (if changed
                        then \<exists>loaded st. loadPackages L w = Inr loaded
                               \<and> diffPass L idx packages pkgs loaded = (None, st)
                               \<and> lockFile w' = Some (yarnLockHeader @ stringifySyml L (newPkgs st))
                        else lockFile w' = lockFile w)))
       \<and> map (take 1) (js_split (CHR 0x0A) yarnLockHeader) = [''#'', ''#'', [], []]"
proof -
  from upgradeSelectedPackages_cases[OF assms]
  consider
    (load) err where "loadPackages L w = Inl err" "r = Inl err" "w' = w"
  | (threw) loaded err st where "loadPackages L w = Inr loaded"
      "diffPass L idx packages pkgs loaded = (Some err, st)" "r = Inl err"
      "w' = w\<lparr>console := console w @ printed st\<rparr>"
  | (finished) loaded st where "loadPackages L w = Inr loaded"
      "diffPass L idx packages pkgs loaded = (None, st)" "r = Inr (hasChange st)"
      "w' = (if hasChange st
             then w\<lparr>lockFile := Some (yarnLockHeader @ stringifySyml L (newPkgs st)),
                    console := console w @ printed st\<rparr>
             else w\<lparr>console := console w @ printed st\<rparr>)"
    by blast
  then have "outside w' = outside w
       \<and> (\<exists>ls. console w' = console w @ ls
            \<and> (case r of
                  Inl err \<Rightarrow> lockFile w' = lockFile w
                | Inr changed \<Rightarrow>
                    changed = (\<exists>l \<in> set ls. isDowngrade l)
                    \<and> (if changed
                        then \<exists>loaded st. loadPackages L w = Inr loaded
                               \<and> diffPass L idx packages pkgs loaded = (None, st)
                               \<and> lockFile w' = Some (yarnLockHeader @ stringifySyml L (newPkgs st))
                        else lockFile w' = lockFile w)))"
  proof cases
    case load
    then show ?thesis by simp
  next
    case threw
    then show ?thesis by simp
  next
    case finished
    from diffPass_downgrade[OF finished(2)] finished show ?thesis
      by (cases "hasChange st") auto
  qed
  with banner_lines show ?thesis by blast
qed

lemma bumped_world_pass:
  "upgradeSelectedPackages scenario demoIndex ''pkg-a'' original (startWorld bumped) =
     (Inr True,
      \<lparr>lockFile = Some (lockText reverted),
       console = [Log (Ignoring ''pkg-a@npm:^1.0.0''),
                  Log (Downgrade ''pkg-b'' ''2.1.0'' ''2.0.0''),
                  Warn (NoPackageFound ''pkg-b@npm:^3.0.0''),
                  Warn (NewPackage ''pkg-c@npm:^3.0.0'')],
       outside = (0, 0)\<rparr>)"
  by code_simp

theorem lock_written_iff_changed_witness:
  "\<exists>loaded st. loadPackages scenario (startWorld bumped) = Inr loaded
      \<and> diffPass scenario demoIndex ''pkg-a'' original loaded = (None, st)
      \<and> lockFile (snd (upgradeSelectedPackages scenario demoIndex ''pkg-a'' original (startWorld bumped)))
          = Some (yarnLockHeader @ stringifySyml scenario (newPkgs st))"
  using lock_written_iff_changed[OF bumped_world_pass] by (auto simp: bumped_world_pass)

section \<open>The claims about the range test and exceptions\<close>

text \<open>
  Claim C3, as amended. The test on an original version and the selector of a range is
  true exactly when \<^verbatim>\<open>semver.validRange\<close> gives \<^verbatim>\<open>null\<close> (or an empty string) for the
  selector, or the version satisfies the selector. A descriptor whose selector
  \<^verbatim>\<open>validRange\<close> rejects passes for every original entry, also for a missing one.
  The program has no test for the empty selector.
\<close>

theorem range_check:
  "(satisfiesCheck L origVersion sel \<longleftrightarrow>
      validRange L sel = None \<or> validRange L sel = Some [] \<or> satisfies L origVersion sel)
   \<and> (validRange L sel = None \<and> parseDescriptor L (trim desc) = Some parsedDesc
        \<and> parseRange L (range_d parsedDesc) = Some rng \<and> selector rng = sel
      \<longrightarrow> checkDescriptor L origPkg desc = Inr True)"
  by (cases origPkg) (auto simp: satisfiesCheck_def truthy_def checkDescriptor_def split: option.splits)

theorem range_check_witness:
  "satisfiesCheck scenario ''2.0.0'' ''^2.0.0''
   \<and> \<not> satisfiesCheck scenario ''2.0.0'' ''^3.0.0''
   \<and> satisfiesCheck scenario ''2.0.0'' ''packages/b''"
  using range_check[of scenario "''2.0.0''" "''^2.0.0''"]
    range_check[of scenario "''2.0.0''" "''^3.0.0''"]
    range_check[of scenario "''2.0.0''" "''packages/b''"]
  by (simp add: scenario_def demoLib_def demo_validRange_def demo_satisfies_def)

text \<open>
  The claim as stated fails for the empty selector: \<^verbatim>\<open>validRange('')\<close> is \<^verbatim>\<open>'*'\<close>, so
  the test is \<^verbatim>\<open>semver.satisfies(version, '')\<close>, which is false for the version
  \<^verbatim>\<open>0.0.0-use.local\<close> that yarn gives to workspaces (it has a pre-release tag).
\<close>

theorem range_check_counterexample:
  "\<not> (satisfiesCheck scenario ''0.0.0-use.local'' [] \<longleftrightarrow>
        ([] :: string) = [] \<or> \<not> truthy (validRange scenario [])
        \<or> satisfies scenario ''0.0.0-use.local'' [])"
  by (simp add: satisfiesCheck_def truthy_def scenario_def demoLib_def demo_validRange_def
      demo_satisfies_def)

text \<open>
  Claim C5, as amended. Nothing catches the exception of a parser. Take a run whose
  loop has made any number of iterations, and let the next install write a lock file
  with an entry, no metadata, that cannot be decomposed: its resolution has no name;
  or its name is out of the pattern, the original snapshot has entries of that name,
  and against the first of them the descriptors of the key reach one that cannot be
  decomposed into a name and a range. Then the run ends with an exception in the pass
  after that install: the world is as that install left it, but for lines on the
  console, and none of these lines is about that key or a key after it. So the lock
  file is not written, no entry is skipped with a warning, the entries after it are
  not visited, and neither a further install nor the immutable install is made. When
  an entry whose resolution has no name is in the lock file the run starts from, the
  run ends with an exception before any install, with the world untouched.
\<close>

theorem unparsable_entry_aborts:
  assumes "loadPackages L w0 = Inr pkgs"
    and "\<not> startsWith k ''__''"
  shows "(map_of pkgs k = Some e \<and> canonicalName L e = Inl err \<longrightarrow>
            (\<exists>err'. upgradeLock sh L packages w0 = (Inl err', w0)))
       \<and> (indexPackages L pkgs (map fst pkgs) [] = Inr idx
          \<and> loopAfter n sh L idx packages pkgs 5 w0 = Some (c, w)
          \<and> run sh ''jlpm install'' w = (Inr (), w1)
          \<and> loadPackages L w1 = Inr loaded
          \<and> distinct (map fst loaded)
          \<and> map fst loaded = pre @ k # post
          \<and> map_of loaded k = Some e
          \<and> undecomposable L packages pkgs k e \<longrightarrow>
            (\<exists>err' ls. upgradeLock sh L packages w0
                          = (Inl err', w1\<lparr>console := console w1 @ ls\<rparr>)
               \<and> (\<forall>k' \<in> set (k # post). set ls \<inter> about k' = {})))"
proof (intro conjI impI)
  assume a: "map_of pkgs k = Some e \<and> canonicalName L e = Inl err"
  then have "k \<in> set (map fst pkgs)"
    by (metis map_of_eq_None_iff option.distinct(1) set_map)
  with a assms(2) obtain err' where
    "indexPackages L pkgs (map fst pkgs) [] = Inl err'"
    using indexPackages_unparsable[of pkgs k e L err "map fst pkgs" "[]"] by blast
  with assms(1) show "\<exists>err'. upgradeLock sh L packages w0 = (Inl err', w0)"
    by (simp add: upgradeLock_def)
next
  assume a: "indexPackages L pkgs (map fst pkgs) [] = Inr idx
          \<and> loopAfter n sh L idx packages pkgs 5 w0 = Some (c, w)
          \<and> run sh ''jlpm install'' w = (Inr (), w1)
          \<and> loadPackages L w1 = Inr loaded
          \<and> distinct (map fst loaded)
          \<and> map fst loaded = pre @ k # post
          \<and> map_of loaded k = Some e
          \<and> undecomposable L packages pkgs k e"
  then have idx: "indexPackages L pkgs (map fst pkgs) [] = Inr idx"
    and reach: "loopAfter n sh L idx packages pkgs 5 w0 = Some (c, w)"
    and inst: "run sh ''jlpm install'' w = (Inr (), w1)"
    and load: "loadPackages L w1 = Inr loaded"
    and dist: "distinct (map fst loaded)"
    and keys: "map fst loaded = pre @ k # post"
    and e: "map_of loaded k = Some e"
    and bad: "undecomposable L packages pkgs k e"
    by blast+
  from diffPass_undecomposable[OF idx dist keys e assms(2) bad] obtain err' st where
    pass: "diffPass L idx packages pkgs loaded = (Some err', st)" and
    quiet: "\<forall>k' \<in> set (k # post). set (printed st) \<inter> about k' = {}"
    by blast
  from load pass have
    "upgradeSelectedPackages L idx packages pkgs w1
       = (Inl err', w1\<lparr>console := console w1 @ printed st\<rparr>)"
    by (simp add: upgradeSelectedPackages_def)
  with inst have
    "resolveLoop sh L idx packages pkgs c w = (Inl err', w1\<lparr>console := console w1 @ printed st\<rparr>)"
    by (simp add: resolveLoop.simps[of sh L idx packages pkgs c w])
  with loopAfter_resolveLoop[OF reach] have
    "resolveLoop sh L idx packages pkgs 5 w0 = (Inl err', w1\<lparr>console := console w1 @ printed st\<rparr>)"
    by simp
  with assms(1) idx have
    "upgradeLock sh L packages w0 = (Inl err', w1\<lparr>console := console w1 @ printed st\<rparr>)"
    by (simp add: upgradeLock_def)
  with quiet show "\<exists>err' ls. upgradeLock sh L packages w0
                          = (Inl err', w1\<lparr>console := console w1 @ ls\<rparr>)
               \<and> (\<forall>k' \<in> set (k # post). set ls \<inter> about k' = {})"
    by blast
qed

lemma broken_load: "loadPackages scenario3 (startWorld withBroken) = Inr withBroken"
  by code_simp

lemma broken_entry:
  "map_of withBroken ''pkg-b@npm:^1.0.0'' = Some (entry ''1.0.0'' ''@npm:1.0.0'')
   \<and> canonicalName scenario3 (entry ''1.0.0'' ''@npm:1.0.0'') = Inl InvalidDescriptor"
  by code_simp

lemma badKey_start:
  "loadPackages scenario4 (startWorld original) = Inr original
   \<and> indexPackages scenario4 original (map fst original) [] = Inr demoIndex"
  by code_simp

lemma badKey_first_iteration:
  "loopAfter 1 (installThen original bumped withBadKey) scenario4 demoIndex ''pkg-a'' original 5
       (startWorld original) =
     Some (4, \<lparr>lockFile = Some (lockText reverted),
               console = [Log (Ignoring ''pkg-a@npm:^1.0.0''),
                          Log (Downgrade ''pkg-b'' ''2.1.0'' ''2.0.0''),
                          Warn (NoPackageFound ''pkg-b@npm:^3.0.0''),
                          Warn (NewPackage ''pkg-c@npm:^3.0.0'')],
               outside = (1, 0)\<rparr>)"
  by code_simp

lemma badKey_second_install:
  "run (installThen original bumped withBadKey) ''jlpm install''
       \<lparr>lockFile = Some (lockText reverted),
        console = [Log (Ignoring ''pkg-a@npm:^1.0.0''),
                   Log (Downgrade ''pkg-b'' ''2.1.0'' ''2.0.0''),
                   Warn (NoPackageFound ''pkg-b@npm:^3.0.0''),
                   Warn (NewPackage ''pkg-c@npm:^3.0.0'')],
        outside = (1, 0)\<rparr> =
     (Inr (),
      \<lparr>lockFile = Some (lockText withBadKey),
       console = [Log (Ignoring ''pkg-a@npm:^1.0.0''),
                  Log (Downgrade ''pkg-b'' ''2.1.0'' ''2.0.0''),
                  Warn (NoPackageFound ''pkg-b@npm:^3.0.0''),
                  Warn (NewPackage ''pkg-c@npm:^3.0.0'')],
       outside = (2, 0)\<rparr>)"
  by code_simp

lemma badKey_load:
  "loadPackages scenario4
       \<lparr>lockFile = Some (lockText withBadKey),
        console = [Log (Ignoring ''pkg-a@npm:^1.0.0''),
                   Log (Downgrade ''pkg-b'' ''2.1.0'' ''2.0.0''),
                   Warn (NoPackageFound ''pkg-b@npm:^3.0.0''),
                   Warn (NewPackage ''pkg-c@npm:^3.0.0'')],
        outside = ((2, 0) :: nat \<times> nat)\<rparr> = Inr withBadKey"
  by code_simp

lemma badKey_entry:
  "map_of withBadKey ''pkg-b@npm:^2.0.0, @npm:x'' = Some (entry ''2.1.0'' ''pkg-b@npm:2.1.0'')
   \<and> undecomposable scenario4 ''pkg-a'' original ''pkg-b@npm:^2.0.0, @npm:x''
       (entry ''2.1.0'' ''pkg-b@npm:2.1.0'')"
  by code_simp

theorem unparsable_entry_aborts_witness:
  "(\<exists>err'. upgradeLock (installOnce original withBroken) scenario3 ''pkg-a'' (startWorld withBroken)
               = (Inl err', startWorld withBroken))
   \<and> (\<exists>err' ls. upgradeLock (installThen original bumped withBadKey) scenario4 ''pkg-a''
                   (startWorld original)
        = (Inl err',
           \<lparr>lockFile = Some (lockText withBadKey),
            console = [Log (Ignoring ''pkg-a@npm:^1.0.0''),
                       Log (Downgrade ''pkg-b'' ''2.1.0'' ''2.0.0''),
                       Warn (NoPackageFound ''pkg-b@npm:^3.0.0''),
                       Warn (NewPackage ''pkg-c@npm:^3.0.0'')] @ ls,
            outside = (2, 0)\<rparr>)
      \<and> set ls \<inter> about ''pkg-b@npm:^2.0.0, @npm:x'' = {}
      \<and> set ls \<inter> about ''pkg-c@npm:^3.0.0'' = {})"
proof
  have b: "\<not> startsWith ''pkg-b@npm:^1.0.0'' ''__''"
    by (simp add: startsWith_def)
  from unparsable_entry_aborts[OF broken_load b, THEN conjunct1, THEN mp, OF broken_entry]
  show "\<exists>err'. upgradeLock (installOnce original withBroken) scenario3 ''pkg-a'' (startWorld withBroken)
               = (Inl err', startWorld withBroken)" .
next
  have b: "\<not> startsWith ''pkg-b@npm:^2.0.0, @npm:x'' ''__''"
    by (simp add: startsWith_def)
  have d: "distinct (map fst withBadKey)"
    by (simp add: withBadKey_def metadata_def)
  have k: "map fst withBadKey
             = [''__metadata'', ''pkg-a@npm:^1.0.0''] @ ''pkg-b@npm:^2.0.0, @npm:x'' # [''pkg-c@npm:^3.0.0'']"
    by (simp add: withBadKey_def metadata_def)
  note all = conjI[OF conjunct2[OF badKey_start]
      conjI[OF badKey_first_iteration
        conjI[OF badKey_second_install
          conjI[OF badKey_load
            conjI[OF d conjI[OF k badKey_entry]]]]]]
  from unparsable_entry_aborts[OF conjunct1[OF badKey_start] b, THEN conjunct2, THEN mp, OF all]
  show "\<exists>err' ls. upgradeLock (installThen original bumped withBadKey) scenario4 ''pkg-a''
                   (startWorld original)
        = (Inl err',
           \<lparr>lockFile = Some (lockText withBadKey),
            console = [Log (Ignoring ''pkg-a@npm:^1.0.0''),
                       Log (Downgrade ''pkg-b'' ''2.1.0'' ''2.0.0''),
                       Warn (NoPackageFound ''pkg-b@npm:^3.0.0''),
                       Warn (NewPackage ''pkg-c@npm:^3.0.0'')] @ ls,
            outside = (2, 0)\<rparr>)
      \<and> set ls \<inter> about ''pkg-b@npm:^2.0.0, @npm:x'' = {}
      \<and> set ls \<inter> about ''pkg-c@npm:^3.0.0'' = {}"
    by auto
qed

text \<open>
  The claim as stated fails: in the third scenario the run ends with the exception
  after one install; the entry after the broken one keeps its bump, no warning is
  printed, and the immutable install never runs.
\<close>

theorem unparsable_entry_aborts_counterexample:
  "upgradeLock (installOnce original withBroken) scenario3 ''pkg-a'' (startWorld original) =
     (Inl InvalidDescriptor,
      \<lparr>lockFile = Some (lockText withBroken),
       console = [Log (Ignoring ''pkg-a@npm:^1.0.0'')],
       outside = (1, 0)\<rparr>)"
  by code_simp

section \<open>The whole run\<close>

subsection \<open>The loop of installs and passes\<close>

lemma run_console: "run sh cmd w = (r, w') \<Longrightarrow> console w' = console w"
  by (auto simp: run_def split: prod.splits)

lemma diffPass_downgrade_names:
  "diffPass L idx packages pkgs loaded = (r, st) \<Longrightarrow>
   Log (Downgrade nm a b) \<in> set (printed st) \<Longrightarrow>
   map_of idx nm \<noteq> None \<and> isMatch L nm packages = Some False"
  unfolding diffPass_def by (drule forEachPackage_downgrade_names) auto

lemma upgradeSelectedPackages_console:
  assumes "upgradeSelectedPackages L idx packages pkgs w = (r, w')"
  shows "\<exists>ls. console w' = console w @ ls
           \<and> (\<forall>nm a b. Log (Downgrade nm a b) \<in> set ls \<longrightarrow> isMatch L nm packages = Some False)"
proof -
  from upgradeSelectedPackages_cases[OF assms]
  consider
    (load) "w' = w"
  | (pass) loaded r' st where "diffPass L idx packages pkgs loaded = (r', st)"
      "console w' = console w @ printed st"
    by (auto split: if_splits)
  then show ?thesis
  proof cases
    case load
    then show ?thesis by simp
  next
    case pass
    have "\<forall>nm a b. Log (Downgrade nm a b) \<in> set (printed st) \<longrightarrow> isMatch L nm packages = Some False"
      using diffPass_downgrade_names[OF pass(1)] by blast
    with pass(2) show ?thesis by blast
  qed
qed

lemma resolveLoop_console:
  "resolveLoop sh L idx packages pkgs counter w = (r, w') \<Longrightarrow>
   \<exists>ls. console w' = console w @ ls
      \<and> (\<forall>nm a b. Log (Downgrade nm a b) \<in> set ls \<longrightarrow> isMatch L nm packages = Some False)"
proof (induction sh L idx packages pkgs counter w rule: resolveLoop.induct)
  case (1 sh L idx packages pkgs counter w)
  obtain r1 w1 where r1: "run sh ''jlpm install'' w = (r1, w1)"
    by (cases "run sh ''jlpm install'' w")
  have c1: "console w1 = console w" using run_console[OF r1] .
  show ?case
  proof (cases r1)
    case (Inl e)
    with "1.prems" r1 have "w' = w1" by (simp add: resolveLoop.simps[of sh L idx packages pkgs counter w])
    with c1 show ?thesis by simp
  next
    case (Inr u)
    obtain r2 w2 where r2: "upgradeSelectedPackages L idx packages pkgs w1 = (r2, w2)"
      by (cases "upgradeSelectedPackages L idx packages pkgs w1")
    from upgradeSelectedPackages_console[OF r2] c1 obtain ls where
      ls: "console w2 = console w @ ls"
          "\<forall>nm a b. Log (Downgrade nm a b) \<in> set ls \<longrightarrow> isMatch L nm packages = Some False"
      by auto
    show ?thesis
    proof (cases r2)
      case (Inl e)
      with "1.prems" r1 r2 Inr have "w' = w2"
        by (simp add: resolveLoop.simps[of sh L idx packages pkgs counter w])
      with ls show ?thesis by blast
    next
      case changed: (Inr changed)
      show ?thesis
      proof (cases "changed \<and> counter > 0")
        case True
        with "1.prems" r1 r2 Inr changed
        have again: "resolveLoop sh L idx packages pkgs (counter - 1) w2 = (r, w')"
          by (simp add: resolveLoop.simps[of sh L idx packages pkgs counter w])
        from "1.IH"[OF r1[symmetric] _ r2[symmetric] _ True again] Inr changed obtain ls' where
          "console w' = console w2 @ ls'"
          "\<forall>nm a b. Log (Downgrade nm a b) \<in> set ls' \<longrightarrow> isMatch L nm packages = Some False"
          by auto
        with ls have "console w' = console w @ (ls @ ls')"
          and "\<forall>nm a b. Log (Downgrade nm a b) \<in> set ls \<or> Log (Downgrade nm a b) \<in> set ls'
                 \<longrightarrow> isMatch L nm packages = Some False"
          by (simp, blast)
        then have "console w' = console w @ (ls @ ls')"
          and "\<forall>nm a b. Log (Downgrade nm a b) \<in> set (ls @ ls') \<longrightarrow> isMatch L nm packages = Some False"
          by simp_all
        then show ?thesis by blast
      next
        case False
        with "1.prems" r1 r2 Inr changed have "w' = w2"
          by (simp add: resolveLoop.simps[of sh L idx packages pkgs counter w])
        with ls show ?thesis by blast
      qed
    qed
  qed
qed

lemma resolveLoop_last_pass:
  "resolveLoop sh L idx packages pkgs counter w = (Inr u, w') \<Longrightarrow>
   \<exists>w1 changed. upgradeSelectedPackages L idx packages pkgs w1 = (Inr changed, w')"
proof (induction sh L idx packages pkgs counter w rule: resolveLoop.induct)
  case (1 sh L idx packages pkgs counter w)
  obtain r1 w1 where r1: "run sh ''jlpm install'' w = (r1, w1)"
    by (cases "run sh ''jlpm install'' w")
  show ?case
  proof (cases r1)
    case (Inl e)
    with "1.prems" r1 show ?thesis by (simp add: resolveLoop.simps[of sh L idx packages pkgs counter w])
  next
    case (Inr u1)
    obtain r2 w2 where r2: "upgradeSelectedPackages L idx packages pkgs w1 = (r2, w2)"
      by (cases "upgradeSelectedPackages L idx packages pkgs w1")
    show ?thesis
    proof (cases r2)
      case (Inl e)
      with "1.prems" r1 r2 Inr show ?thesis
        by (simp add: resolveLoop.simps[of sh L idx packages pkgs counter w])
    next
      case changed: (Inr changed)
      show ?thesis
      proof (cases "changed \<and> counter > 0")
        case True
        with "1.prems" r1 r2 Inr changed
        have again: "resolveLoop sh L idx packages pkgs (counter - 1) w2 = (Inr u, w')"
          by (simp add: resolveLoop.simps[of sh L idx packages pkgs counter w])
        from "1.IH"[OF r1[symmetric] _ r2[symmetric] _ True again] Inr changed show ?thesis
          by auto
      next
        case False
        with "1.prems" r1 r2 Inr changed have "w' = w2"
          by (simp add: resolveLoop.simps[of sh L idx packages pkgs counter w])
        with r2 changed show ?thesis by blast
      qed
    qed
  qed
qed

lemma visitPackage_in_pattern:
  assumes "visitPackage L idx packages pkgs k st = Inr st'"
    and "map_of (newPkgs st) k = Some e"
    and "canonicalName L e = Inr nm" and "isMatch L nm packages = Some True"
  shows "newPkgs st' = newPkgs st"
  using assms
  by (auto simp: visitPackage_def canonicalName_def split: if_splits option.splits)

lemma forEachPackage_in_pattern:
  "forEachPackage L idx packages pkgs ks st = (r, st') \<Longrightarrow>
   map_of (newPkgs st) k = Some e \<Longrightarrow> canonicalName L e = Inr nm \<Longrightarrow> isMatch L nm packages = Some True \<Longrightarrow>
   map_of (newPkgs st') k = Some e"
proof (induction ks arbitrary: st)
  case Nil
  then show ?case by simp
next
  case (Cons k' ks)
  show ?case
  proof (cases "visitPackage L idx packages pkgs k' st")
    case (Inl err)
    with Cons.prems(1) have "st' = st" by simp
    with Cons.prems(2) show ?thesis by simp
  next
    case (Inr s1)
    with Cons.prems(1) have run: "forEachPackage L idx packages pkgs ks s1 = (r, st')" by simp
    have "map_of (newPkgs s1) k = Some e"
    proof (cases "k' = k")
      case True
      with Inr have "visitPackage L idx packages pkgs k st = Inr s1" by simp
      from visitPackage_in_pattern[OF this Cons.prems(2-4)] Cons.prems(2) show ?thesis by simp
    next
      case False
      then have "k \<noteq> k'" by (rule not_sym)
      with Inr have "map_of (newPkgs s1) k = map_of (newPkgs st) k" by (rule visitPackage_other)
      with Cons.prems(2) show ?thesis by simp
    qed
    from Cons.IH[OF run this Cons.prems(3,4)] show ?thesis .
  qed
qed

lemma pass_postcondition:
  assumes pass: "diffPass L idx packages pkgs loaded = (None, st)"
    and dist: "distinct (map fst loaded)"
    and idx: "indexPackages L pkgs (map fst pkgs) [] = Inr idx"
    and fin: "map_of (newPkgs st) k = Some e'"
    and meta: "\<not> startsWith k ''__''"
    and nm: "canonicalName L e' = Inr nm"
    and out: "isMatch L nm packages = Some False"
    and fit: "firstFit L pkgs k (keysNamed L pkgs nm) = Some orig"
  shows "version e' = version orig"
proof -
  from fit have "keysNamed L pkgs nm \<noteq> []" by (auto simp: firstFit_def)
  with indexPackages_keysNamed[OF idx, of nm]
  have origs: "map_of idx nm = Some (keysNamed L pkgs nm)" by simp
  have "map fst (newPkgs st) = map fst loaded"
    using forEachPackage_keys[OF pass[unfolded diffPass_def]] by simp
  moreover from fin have "k \<in> set (map fst (newPkgs st))"
    by (metis map_of_eq_None_iff option.distinct(1) set_map)
  ultimately have "k \<in> set (map fst loaded)" by simp
  then obtain e where e: "map_of loaded k = Some e"
    by (metis map_of_eq_None_iff not_Some_eq set_map)
  from diffPass_visit[OF pass dist e] obtain st1 st2 where
    v: "visitPackage L idx packages pkgs k st1 = Inr st2" and
    e1: "map_of (newPkgs st1) k = Some e" and
    e2: "map_of (newPkgs st) k = map_of (newPkgs st2) k"
    by blast
  from v e1 meta obtain n0 where n0: "canonicalName L e = Inr n0"
    by (auto simp: visitPackage_def canonicalName_def split: sum.splits)
  show ?thesis
  proof (cases "map_of idx n0")
    case None
    with v e1 meta n0 have "newPkgs st2 = newPkgs st1"
      by (auto simp: visitPackage_def canonicalName_def)
    with e1 e2 fin have "e' = e" by simp
    with n0 nm None origs show ?thesis by simp
  next
    case (Some origs0)
    from v e1 meta n0 Some obtain matched where
      matched: "isMatch L n0 packages = Some matched"
      by (auto simp: visitPackage_def canonicalName_def split: option.splits)
    show ?thesis
    proof (cases matched)
      case True
      with matched have inp: "isMatch L n0 packages = Some True" by simp
      from visitPackage_in_pattern[OF v e1 n0 inp] e1 e2 fin have "e' = e" by simp
      with n0 nm inp out show ?thesis by simp
    next
      case False
      with matched have outp: "isMatch L n0 packages = Some False" by simp
      with v e1 meta n0 Some obtain found where
        f: "findOriginal L pkgs k origs0 = Inr found"
        by (auto simp: visitPackage_def canonicalName_def split: sum.splits)
      then have ff: "found = firstFit L pkgs k origs0" by (rule findOriginal_firstFit)
      show ?thesis
      proof (cases found)
        case None
        with v e1 meta n0 Some outp f have "newPkgs st2 = newPkgs st1"
          by (auto simp: visitPackage_def canonicalName_def)
        with e1 e2 fin have "e' = e" by simp
        with n0 nm Some origs None ff fit show ?thesis by simp
      next
        case found: (Some orig0)
        show ?thesis
        proof (cases "version orig0 = version e")
          case True
          with v e1 meta n0 Some outp f found have "st2 = st1"
            by (auto simp: visitPackage_def canonicalName_def)
          with e1 e2 fin have "e' = e" by simp
          with n0 nm Some origs found ff fit True show ?thesis by simp
        next
          case differ: False
          with v e1 meta n0 Some outp f found have
            "newPkgs st2 = AList.update k orig0 (newPkgs st1)"
            by (auto simp: visitPackage_def canonicalName_def)
          with e2 fin have e': "e' = orig0" by (simp add: AList.update_conv')
          from ff found have "firstFit L pkgs k origs0 = Some orig0" by simp
          from firstFit_member[OF this] obtain od where
            od: "od \<in> set origs0" "map_of pkgs od = Some orig0" by blast
          from index_member[OF idx Some od(1)] od(2) have "canonicalName L orig0 = Inr n0"
            by auto
          with e' nm have "nm = n0" by simp
          with Some origs have "keysNamed L pkgs nm = origs0" by simp
          with fit ff found e' show ?thesis by simp
        qed
      qed
    qed
  qed
qed

subsection \<open>How many installs a run can make\<close>

lemma run_counting:
  "run (counting sh) cmd w = (r, w') \<Longrightarrow>
   snd (outside w') = (if cmd = ''jlpm install'' then Suc (snd (outside w)) else snd (outside w))"
  by (auto simp: run_def counting_def split: prod.splits)

lemma upgradeSelectedPackages_outside:
  "upgradeSelectedPackages L idx packages pkgs w = (r, w') \<Longrightarrow> outside w' = outside w"
  by (drule upgradeSelectedPackages_cases) (auto split: if_splits)

lemma resolveLoop_installs:
  "resolveLoop (counting sh) L idx packages pkgs counter w = (r, w') \<Longrightarrow> 0 \<le> counter \<Longrightarrow>
   snd (outside w') \<le> snd (outside w) + nat counter + 1"
proof (induction "counting sh" L idx packages pkgs counter w rule: resolveLoop.induct)
  case (1 L idx packages pkgs counter w)
  obtain r1 w1 where r1: "run (counting sh) ''jlpm install'' w = (r1, w1)"
    by (cases "run (counting sh) ''jlpm install'' w")
  have c1: "snd (outside w1) = Suc (snd (outside w))" using run_counting[OF r1] by simp
  show ?case
  proof (cases r1)
    case (Inl e)
    with "1.prems" r1 have "w' = w1"
      by (simp add: resolveLoop.simps[of "counting sh" L idx packages pkgs counter w])
    with c1 show ?thesis by simp
  next
    case (Inr u)
    obtain r2 w2 where r2: "upgradeSelectedPackages L idx packages pkgs w1 = (r2, w2)"
      by (cases "upgradeSelectedPackages L idx packages pkgs w1")
    have c2: "snd (outside w2) = Suc (snd (outside w))"
      using upgradeSelectedPackages_outside[OF r2] c1 by simp
    show ?thesis
    proof (cases r2)
      case (Inl e)
      with "1.prems" r1 r2 Inr have "w' = w2"
        by (simp add: resolveLoop.simps[of "counting sh" L idx packages pkgs counter w])
      with c2 show ?thesis by simp
    next
      case changed: (Inr changed)
      show ?thesis
      proof (cases "changed \<and> counter > 0")
        case True
        with "1.prems" r1 r2 Inr changed
        have again: "resolveLoop (counting sh) L idx packages pkgs (counter - 1) w2 = (r, w')"
          by (simp add: resolveLoop.simps[of "counting sh" L idx packages pkgs counter w])
        from True have "0 \<le> counter - 1" by simp
        from "1.hyps"[OF r1[symmetric] _ r2[symmetric] _ True again this] Inr changed
        have "snd (outside w') \<le> snd (outside w2) + nat (counter - 1) + 1" by simp
        moreover from True have "nat (counter - 1) + 1 = nat counter" by auto
        ultimately show ?thesis using c2 by linarith
      next
        case False
        with "1.prems" r1 r2 Inr changed have "w' = w2"
          by (simp add: resolveLoop.simps[of "counting sh" L idx packages pkgs counter w])
        with c2 show ?thesis by simp
      qed
    qed
  qed
qed

lemma upgradeLock_installs:
  assumes "upgradeLock (counting sh) L packages w = (r, w')"
  shows "snd (outside w') \<le> snd (outside w) + 6"
proof (cases "loadPackages L w")
  case (Inl e)
  with assms show ?thesis by (simp add: upgradeLock_def)
next
  case pkgs: (Inr pkgs)
  show ?thesis
  proof (cases "indexPackages L pkgs (map fst pkgs) []")
    case (Inl e)
    with assms pkgs show ?thesis by (simp add: upgradeLock_def)
  next
    case (Inr idx)
    obtain r2 w2 where loop: "resolveLoop (counting sh) L idx packages pkgs 5 w = (r2, w2)"
      by (cases "resolveLoop (counting sh) L idx packages pkgs 5 w")
    from resolveLoop_installs[OF loop] have b: "snd (outside w2) \<le> snd (outside w) + 6" by simp
    show ?thesis
    proof (cases r2)
      case (Inl e)
      with assms pkgs Inr loop have "w' = w2" by (simp add: upgradeLock_def)
      with b show ?thesis by simp
    next
      case u: (Inr u)
      with assms pkgs Inr loop have "run (counting sh) ''jlpm install --immutable'' w2 = (r, w')"
        by (simp add: upgradeLock_def)
      from run_counting[OF this] b show ?thesis by simp
    qed
  qed
qed

subsection \<open>The first scenario, run\<close>

lemma demo_run:
  "upgradeLock (installOnce original bumped) scenario ''pkg-a'' (startWorld original) =
     (Inr (),
      \<lparr>lockFile = Some (lockText reverted),
       console = [Log (Ignoring ''pkg-a@npm:^1.0.0''),
                  Log (Downgrade ''pkg-b'' ''2.1.0'' ''2.0.0''),
                  Warn (NoPackageFound ''pkg-b@npm:^3.0.0''),
                  Warn (NewPackage ''pkg-c@npm:^3.0.0''),
                  Log (Ignoring ''pkg-a@npm:^1.0.0''),
                  Warn (NoPackageFound ''pkg-b@npm:^3.0.0''),
                  Warn (NewPackage ''pkg-c@npm:^3.0.0'')],
       outside = (2, 1)\<rparr>)"
  by code_simp

text \<open>With the empty pattern the matcher throws at the first entry of a known package.\<close>

lemma empty_pattern_throws:
  "upgradeLock (installOnce original bumped) scenario [] (startWorld reverted) =
     (Inl TypeError,
      \<lparr>lockFile = Some (lockText reverted), console = [], outside = (1, 0)\<rparr>)"
  by code_simp

lemma demoLib_objects:
  assumes "\<forall>m \<in> set known. distinct (map fst m)"
  shows "\<forall>t m. parseSyml (demoLib known) t = Some m \<longrightarrow> distinct (map fst m)"
  using assms by (auto simp: demoLib_def demo_parseSyml_def find_Some_iff)

lemma scenario_objects:
  "\<forall>t m. parseSyml scenario t = Some m \<longrightarrow> distinct (map fst m)"
  unfolding scenario_def
  by (rule demoLib_objects) (simp add: original_def bumped_def reverted_def metadata_def)

lemma installOnce_immutable:
  "\<forall>x f ok x' f'. installOnce old new ''jlpm install --immutable'' x f = (ok, x', f') \<longrightarrow> f' = f"
  by (simp add: installOnce_def)

subsection \<open>Mappings that are settled\<close>

lemma settled_entry:
  assumes "settled L packages m" and "map_of m k = Some e"
    and "\<not> startsWith k ''__''"
  shows "\<exists>nm matched. canonicalName L e = Inr nm \<and> isMatch L nm packages = Some matched
           \<and> (matched
               \<or> (descriptorsParse L k
                   \<and> (case firstFit L m k (keysNamed L m nm) of
                         None \<Rightarrow> True
                       | Some orig \<Rightarrow> version orig = version e)))"
proof -
  from assms(2) have "(k, e) \<in> set m" by (rule map_of_SomeD)
  with assms(1) have
    "startsWith k ''__'' \<or>
       (case canonicalName L e of
          Inl err \<Rightarrow> False
        | Inr nm \<Rightarrow>
            (case isMatch L nm packages of
               None \<Rightarrow> False
             | Some matched \<Rightarrow>
                 matched \<or>
                 (descriptorsParse L k \<and>
                  (case firstFit L m k (keysNamed L m nm) of
                     None \<Rightarrow> True
                   | Some orig \<Rightarrow> version orig = version e))))"
    unfolding settled_def list_all_iff by fast
  with assms(3) show ?thesis
    by (cases "canonicalName L e"; cases "isMatch L (projr (canonicalName L e)) packages") simp_all
qed

lemma settled_index:
  assumes "settled L packages m"
  shows "\<exists>idx. indexPackages L m (map fst m) [] = Inr idx"
proof (rule indexPackages_total, intro ballI impI)
  fix k
  assume k: "k \<in> set (map fst m)" and meta: "\<not> startsWith k ''__''"
  then obtain e where e: "map_of m k = Some e"
    by (metis map_of_eq_None_iff not_Some_eq set_map)
  from settled_entry[OF assms e meta] e
  show "\<exists>e n. map_of m k = Some e \<and> canonicalName L e = Inr n" by blast
qed

lemma settled_visit:
  assumes s: "settled L packages m"
    and idx: "indexPackages L m (map fst m) [] = Inr idx"
    and k: "k \<in> set (map fst m)" and st: "newPkgs st = m"
  shows "\<exists>st'. visitPackage L idx packages m k st = Inr st'
           \<and> newPkgs st' = m \<and> hasChange st' = hasChange st"
proof (cases "startsWith k ''__''")
  case True
  then have "visitPackage L idx packages m k st = Inr st"
    unfolding visitPackage_def by (rule if_P)
  with st show ?thesis by simp
next
  case False
  from k obtain e where e: "map_of m k = Some e"
    by (metis map_of_eq_None_iff not_Some_eq set_map)
  from settled_entry[OF s e False] obtain nm matched where
    nm: "canonicalName L e = Inr nm" and
    matched: "isMatch L nm packages = Some matched" and
    fit: "matched
               \<or> (descriptorsParse L k
                   \<and> (case firstFit L m k (keysNamed L m nm) of
                         None \<Rightarrow> True
                       | Some orig \<Rightarrow> version orig = version e))"
    by blast
  from e False nm k have "k \<in> set (keysNamed L m nm)"
    by (simp add: keysNamed_def)
  then have ne: "keysNamed L m nm \<noteq> []" by auto
  with indexPackages_keysNamed[OF idx, of nm] have i: "map_of idx nm = Some (keysNamed L m nm)"
    by simp
  show ?thesis
  proof (cases matched)
    case True
    with False e nm i st matched show ?thesis
      by (simp add: visitPackage_def canonicalName_def)
  next
    case out: False
    with fit have p: "descriptorsParse L k" by simp
    have "set (keysNamed L m nm) \<subseteq> dom (map_of m)"
      using keysNamed_member[of _ L m nm] by blast
    from findOriginal_total[OF p this]
    have f: "findOriginal L m k (keysNamed L m nm) = Inr (firstFit L m k (keysNamed L m nm))" .
    show ?thesis
    proof (cases "firstFit L m k (keysNamed L m nm)")
      case None
      with False e nm i st out matched f show ?thesis
        by (simp add: visitPackage_def canonicalName_def)
    next
      case (Some orig)
      with fit out have "version orig = version e" by simp
      with Some False e nm i st out matched f show ?thesis
        by (simp add: visitPackage_def canonicalName_def)
    qed
  qed
qed

lemma settled_loop:
  assumes s: "settled L packages m"
    and idx: "indexPackages L m (map fst m) [] = Inr idx"
  shows "set ks \<subseteq> set (map fst m) \<Longrightarrow> newPkgs st = m \<Longrightarrow>
         \<exists>st'. forEachPackage L idx packages m ks st = (None, st')
             \<and> newPkgs st' = m \<and> hasChange st' = hasChange st"
proof (induction ks arbitrary: st)
  case Nil
  then show ?case by simp
next
  case (Cons k ks)
  then have k: "k \<in> set (map fst m)" and ks: "set ks \<subseteq> set (map fst m)" by simp_all
  from settled_visit[OF s idx k Cons.prems(2)] obtain s1 where
    v: "visitPackage L idx packages m k st = Inr s1" and
    m1: "newPkgs s1 = m" and h1: "hasChange s1 = hasChange st"
    by blast
  from Cons.IH[OF ks m1] obtain st' where
    "forEachPackage L idx packages m ks s1 = (None, st')"
    "newPkgs st' = m" "hasChange st' = hasChange s1"
    by blast
  with v h1 show ?case by simp
qed

lemma settled_pass:
  assumes s: "settled L packages m"
    and idx: "indexPackages L m (map fst m) [] = Inr idx"
  shows "\<exists>st. diffPass L idx packages m m = (None, st) \<and> \<not> hasChange st
           \<and> (\<forall>l \<in> set (printed st). \<not> isDowngrade l)"
proof -
  from settled_loop[OF s idx, of "map fst m" "\<lparr>newPkgs = m, hasChange = False, printed = []\<rparr>"]
  obtain st where st: "diffPass L idx packages m m = (None, st)" and h: "\<not> hasChange st"
    by (auto simp: diffPass_def)
  from diffPass_downgrade[OF st] h have "\<forall>l \<in> set (printed st). \<not> isDowngrade l" by simp
  with st h show ?thesis by blast
qed

section \<open>The claims about a run\<close>

text \<open>
  Claim C1, as amended. Take a run that ends normally, with a parser whose mappings
  are objects (distinct keys) and a package manager that writes nothing in immutable
  mode. The final lock file holds a mapping in which every entry that is no metadata
  and whose canonical name does not match the pattern has the version of the first
  entry of the original snapshot, among its entries of that name in file order, that
  fits every descriptor of the key, whenever the snapshot has such an entry. This
  need not be the version the snapshot has at that key. For an entry whose name
  matches the pattern, every pass on that snapshot, whatever the index, leaves the
  entry as it was loaded, and no downgrade line of the run names a package that
  matches.
\<close>

theorem scope_of_a_run:
  assumes run: "upgradeLock sh L packages w = (Inr (), w')"
    and objects: "\<forall>t m. parseSyml L t = Some m \<longrightarrow> distinct (map fst m)"
    and immutable:
      "\<forall>x f ok x' f'. sh ''jlpm install --immutable'' x f = (ok, x', f') \<longrightarrow> f' = f"
  shows "\<exists>pkgs final.
           loadPackages L w = Inr pkgs
         \<and> holds L (lockFile w') final
         \<and> (\<forall>k e nm orig.
               map_of final k = Some e \<and> \<not> startsWith k ''__''
               \<and> canonicalName L e = Inr nm \<and> isMatch L nm packages = Some False
               \<and> firstFit L pkgs k (keysNamed L pkgs nm) = Some orig
               \<longrightarrow> version e = version orig)
         \<and> (\<forall>idx loaded r st k e nm.
               diffPass L idx packages pkgs loaded = (r, st) \<and> map_of loaded k = Some e
               \<and> canonicalName L e = Inr nm \<and> isMatch L nm packages = Some True
               \<longrightarrow> map_of (newPkgs st) k = Some e)
         \<and> (\<exists>ls. console w' = console w @ ls
               \<and> (\<forall>nm old new. Log (Downgrade nm old new) \<in> set ls
                     \<longrightarrow> isMatch L nm packages = Some False))"
proof -
  from run obtain pkgs idx w2 where
    pkgs: "loadPackages L w = Inr pkgs" and
    idx: "indexPackages L pkgs (map fst pkgs) [] = Inr idx" and
    loop: "resolveLoop sh L idx packages pkgs 5 w = (Inr (), w2)" and
    last: "run sh ''jlpm install --immutable'' w2 = (Inr (), w')"
    by (auto simp: upgradeLock_def split: sum.splits prod.splits)
  from last immutable have same: "lockFile w' = lockFile w2"
    by (auto simp: run_def split: prod.splits)
  from resolveLoop_last_pass[OF loop] obtain w1 changed where
    p: "upgradeSelectedPackages L idx packages pkgs w1 = (Inr changed, w2)"
    by blast
  from upgradeSelectedPackages_cases[OF p] obtain loaded st where
    l: "loadPackages L w1 = Inr loaded" and
    d: "diffPass L idx packages pkgs loaded = (None, st)" and
    c: "changed = hasChange st" and
    w2: "w2 = (if hasChange st
               then w1\<lparr>lockFile := Some (yarnLockHeader @ stringifySyml L (newPkgs st)),
                       console := console w1 @ printed st\<rparr>
               else w1\<lparr>console := console w1 @ printed st\<rparr>)"
    by auto
  from l objects have dist: "distinct (map fst loaded)"
    by (auto simp: loadPackages_def split: option.splits)
  have "holds L (lockFile w2) (newPkgs st)"
  proof (cases "hasChange st")
    case True
    with w2 show ?thesis by (simp add: holds_def)
  next
    case False
    then have "newPkgs st = loaded"
      using forEachPackage_unchanged[OF d[unfolded diffPass_def]] by simp
    with False w2 l show ?thesis
      by (auto simp: holds_def loadPackages_def split: option.splits)
  qed
  with same have h: "holds L (lockFile w') (newPkgs st)" by simp
  have scope: "\<forall>k e nm orig.
               map_of (newPkgs st) k = Some e \<and> \<not> startsWith k ''__''
               \<and> canonicalName L e = Inr nm \<and> isMatch L nm packages = Some False
               \<and> firstFit L pkgs k (keysNamed L pkgs nm) = Some orig
               \<longrightarrow> version e = version orig"
    using pass_postcondition[OF d dist idx] by blast
  have frame: "\<forall>idx loaded r st k e nm.
               diffPass L idx packages pkgs loaded = (r, st) \<and> map_of loaded k = Some e
               \<and> canonicalName L e = Inr nm \<and> isMatch L nm packages = Some True
               \<longrightarrow> map_of (newPkgs st) k = Some e"
  proof (intro allI impI)
    fix idx loaded r st k e nm
    assume a: "diffPass L idx packages pkgs loaded = (r, st) \<and> map_of loaded k = Some e
               \<and> canonicalName L e = Inr nm \<and> isMatch L nm packages = Some True"
    then have "forEachPackage L idx packages pkgs (map fst loaded)
                 \<lparr>newPkgs = loaded, hasChange = False, printed = []\<rparr> = (r, st)"
      by (simp add: diffPass_def)
    from forEachPackage_in_pattern[OF this, of k e nm] a
    show "map_of (newPkgs st) k = Some e" by simp
  qed
  from resolveLoop_console[OF loop] obtain ls where
    "console w2 = console w @ ls"
    "\<forall>nm a b. Log (Downgrade nm a b) \<in> set ls \<longrightarrow> isMatch L nm packages = Some False"
    by blast
  moreover have "console w' = console w2" using run_console[OF last] .
  ultimately have lines: "\<exists>ls. console w' = console w @ ls
               \<and> (\<forall>nm old new. Log (Downgrade nm old new) \<in> set ls
                     \<longrightarrow> isMatch L nm packages = Some False)"
    by auto
  show ?thesis
    apply (rule exI[of _ pkgs])
    apply (rule exI[of _ "newPkgs st"])
    apply (intro conjI)
    apply (rule pkgs)
    apply (rule h)
    apply (rule scope)
    apply (rule frame)
    apply (rule lines)
    done
qed

theorem scope_of_a_run_witness:
  "\<exists>pkgs final.
           loadPackages scenario (startWorld original) = Inr pkgs
         \<and> holds scenario
              (lockFile (snd (upgradeLock (installOnce original bumped) scenario ''pkg-a''
                                (startWorld original)))) final
         \<and> (\<forall>k e nm orig.
               map_of final k = Some e \<and> \<not> startsWith k ''__''
               \<and> canonicalName scenario e = Inr nm \<and> isMatch scenario nm ''pkg-a'' = Some False
               \<and> firstFit scenario pkgs k (keysNamed scenario pkgs nm) = Some orig
               \<longrightarrow> version e = version orig)
         \<and> (\<forall>idx loaded r st k e nm.
               diffPass scenario idx ''pkg-a'' pkgs loaded = (r, st) \<and> map_of loaded k = Some e
               \<and> canonicalName scenario e = Inr nm \<and> isMatch scenario nm ''pkg-a'' = Some True
               \<longrightarrow> map_of (newPkgs st) k = Some e)
         \<and> (\<exists>ls. console (snd (upgradeLock (installOnce original bumped) scenario ''pkg-a''
                                (startWorld original)))
                    = console (startWorld original) @ ls
               \<and> (\<forall>nm old new. Log (Downgrade nm old new) \<in> set ls
                     \<longrightarrow> isMatch scenario nm ''pkg-a'' = Some False))"
  unfolding demo_run snd_conv
  by (rule scope_of_a_run[OF demo_run scenario_objects installOnce_immutable])

text \<open>
  The claim as stated fails: the version an out-of-pattern entry ends with need not be
  the one the snapshot has at its key, even when that one satisfies the descriptors of
  the key. In the second scenario, start from the lock file in which \<^verbatim>\<open>lodash\<close> has two
  entries, with a package manager that leaves this file alone. The run ends normally.
  The key \<^verbatim>\<open>lodash@npm:^4.17.0\<close> is in the snapshot with version 4.17.21, which fits the
  key, and \<^verbatim>\<open>lodash\<close> is out of the pattern; yet the final lock file has it at 4.17.20,
  the version of the entry of \<^verbatim>\<open>lodash\<close> that comes first in the file and fits as well.
\<close>

theorem scope_of_a_run_counterexample:
  "upgradeLock (installOnce beforeInstall afterInstall) scenario2 ''pkg-a'' (startWorld afterInstall) =
     (Inr (),
      \<lparr>lockFile = Some (lockText afterRerun),
       console = [Log (Downgrade ''lodash'' ''4.17.21'' ''4.17.20''),
                  Log (Ignoring ''pkg-a@npm:^1.0.0''),
                  Log (Ignoring ''pkg-a@npm:^1.0.0'')],
       outside = (2, 1)\<rparr>)
   \<and> loadPackages scenario2 (startWorld afterInstall) = Inr afterInstall
   \<and> map_of afterInstall ''lodash@npm:^4.17.0'' = Some (entry ''4.17.21'' ''lodash@npm:4.17.21'')
   \<and> canonicalName scenario2 (entry ''4.17.21'' ''lodash@npm:4.17.21'') = Inr ''lodash''
   \<and> fits scenario2 ''lodash@npm:^4.17.0'' (entry ''4.17.21'' ''lodash@npm:4.17.21'')
   \<and> isMatch scenario2 ''lodash'' ''pkg-a'' = Some False
   \<and> parseSyml scenario2 (lockText afterRerun) = Some afterRerun
   \<and> map_of afterRerun ''lodash@npm:^4.17.0'' = Some (entry ''4.17.20'' ''lodash@npm:4.17.20'')
   \<and> canonicalName scenario2 (entry ''4.17.20'' ''lodash@npm:4.17.20'') = Inr ''lodash''
   \<and> version (entry ''4.17.20'' ''lodash@npm:4.17.20'')
       \<noteq> version (entry ''4.17.21'' ''lodash@npm:4.17.21'')"
  by code_simp

text \<open>
  Claim C4. The loop always ends, and no run makes more than six mutable installs
  (\<open>upgradeLock_installs\<close>). But six it can be, not five: with a package manager that
  brings the out-of-pattern bump back on every install, the body of the loop runs six
  times before the immutable install, which then fails. \<^verbatim>\<open>counter-- > 0\<close> compares
  before it decrements, so the body runs for the counter values 5, 4, 3, 2, 1 and 0.
\<close>

theorem six_installs:
  "upgradeLock (installAlways bumped) scenario ''pkg-a'' (startWorld original) =
     (Inl CommandFailed,
      \<lparr>lockFile = Some (lockText reverted),
       console = concat (replicate 6
         [Log (Ignoring ''pkg-a@npm:^1.0.0''),
          Log (Downgrade ''pkg-b'' ''2.1.0'' ''2.0.0''),
          Warn (NoPackageFound ''pkg-b@npm:^3.0.0''),
          Warn (NewPackage ''pkg-c@npm:^3.0.0'')]),
       outside = (6, 1)\<rparr>)"
  by code_simp

text \<open>
  Claim C6, as amended. Start the program on a lock file whose mapping is settled for
  the pattern (every resolution has a name, the matcher answers for every name, which
  it does not for an empty pattern, and every out-of-pattern entry has descriptors
  that parse and the version of the first fitting entry of its name, if there is
  one), with a package manager that is idempotent on it (the mutable install succeeds
  and leaves the file as it is, the immutable install succeeds). Then the run makes
  one mutable install, its first pass reverts nothing and writes nothing, and the
  immutable install passes at once: the run ends normally with the lock file as it
  was.
\<close>

theorem rerun_of_settled_lock:
  assumes "lockFile w = Some t"
    and "parseSyml L t = Some m"
    and "settled L packages m"
    and "sh ''jlpm install'' (outside w) (Some t) = (True, x1, Some t)"
    and "sh ''jlpm install --immutable'' x1 (Some t) = (True, x2, Some t)"
  shows "\<exists>ls. upgradeLock sh L packages w = (Inr (), w\<lparr>console := console w @ ls, outside := x2\<rparr>)
           \<and> (\<forall>l \<in> set ls. \<not> isDowngrade l)"
proof -
  from assms(1,2) have load: "loadPackages L w = Inr m"
    by (simp add: loadPackages_def)
  from settled_index[OF assms(3)] obtain idx where
    idx: "indexPackages L m (map fst m) [] = Inr idx" by blast
  from settled_pass[OF assms(3) idx] obtain st where
    pass: "diffPass L idx packages m m = (None, st)" and
    same: "\<not> hasChange st" and
    lines: "\<forall>l \<in> set (printed st). \<not> isDowngrade l"
    by blast
  define w1 where "w1 = w\<lparr>outside := x1\<rparr>"
  define w2 where "w2 = w\<lparr>console := console w @ printed st, outside := x1\<rparr>"
  from assms(1,4) have r1: "run sh ''jlpm install'' w = (Inr (), w1)"
    by (simp add: run_def w1_def)
  from assms(1,2) have "loadPackages L w1 = Inr m"
    by (simp add: loadPackages_def w1_def)
  with pass same have r2: "upgradeSelectedPackages L idx packages m w1 = (Inr False, w2)"
    by (simp add: upgradeSelectedPackages_def w1_def w2_def)
  from r1 r2 have loop: "resolveLoop sh L idx packages m 5 w = (Inr (), w2)"
    by (simp add: resolveLoop.simps[of sh L idx packages m 5 w])
  from assms(1,5) have
    "run sh ''jlpm install --immutable'' w2
       = (Inr (), w\<lparr>console := console w @ printed st, outside := x2\<rparr>)"
    by (simp add: run_def w2_def)
  with load idx loop have
    "upgradeLock sh L packages w = (Inr (), w\<lparr>console := console w @ printed st, outside := x2\<rparr>)"
    by (simp add: upgradeLock_def)
  with lines show ?thesis by blast
qed

lemma reverted_parses: "parseSyml scenario (lockText reverted) = Some reverted"
  by code_simp

lemma reverted_settled: "settled scenario ''pkg-a'' reverted"
  by code_simp

lemma reverted_install:
  "installOnce original bumped ''jlpm install'' (0, 0) (Some (lockText reverted))
     = (True, (1, 0), Some (lockText reverted))"
  by code_simp

theorem rerun_of_settled_lock_witness:
  "\<exists>ls. upgradeLock (installOnce original bumped) scenario ''pkg-a'' (startWorld reverted)
          = (Inr (), (startWorld reverted)\<lparr>console := console (startWorld reverted) @ ls,
                                            outside := (1, 1)\<rparr>)
        \<and> (\<forall>l \<in> set ls. \<not> isDowngrade l)"
proof -
  have a: "lockFile (startWorld reverted) = Some (lockText reverted)"
    by (simp add: startWorld_def)
  have c: "installOnce original bumped ''jlpm install'' (outside (startWorld reverted))
             (Some (lockText reverted)) = (True, (1, 0), Some (lockText reverted))"
    using reverted_install by (simp add: startWorld_def)
  have d: "installOnce original bumped ''jlpm install --immutable'' (1, 0)
             (Some (lockText reverted)) = (True, (1, 1), Some (lockText reverted))"
    by (simp add: installOnce_def)
  show ?thesis
    by (rule rerun_of_settled_lock[where sh = "installOnce original bumped",
          OF a reverted_parses reverted_settled c d])
qed

lemma first_run:
  "upgradeLock (installOnce beforeInstall afterInstall) scenario2 ''pkg-a'' (startWorld beforeInstall) =
     (Inr (),
      \<lparr>lockFile = Some (lockText afterInstall),
       console = [Warn (NewPackage ''lodash@npm:4.17.20''),
                  Warn (NewPackage ''lodash@npm:^4.17.0''),
                  Log (Ignoring ''pkg-a@npm:^1.0.0'')],
       outside = (1, 1)\<rparr>)"
  by code_simp

lemma idempotent_install:
  "installOnce beforeInstall afterInstall ''jlpm install'' (1, 1) (Some (lockText afterInstall))
     = (True, (2, 1), Some (lockText afterInstall))"
  by code_simp

lemma second_index:
  "indexPackages scenario2 afterInstall (map fst afterInstall) [] =
     Inr [(''lodash'', [''lodash@npm:4.17.20'', ''lodash@npm:^4.17.0'']),
          (''pkg-a'', [''pkg-a@npm:^1.0.0''])]"
  by code_simp

lemma second_pass:
  "diffPass scenario2
       [(''lodash'', [''lodash@npm:4.17.20'', ''lodash@npm:^4.17.0'']),
        (''pkg-a'', [''pkg-a@npm:^1.0.0''])]
       ''pkg-a'' afterInstall afterInstall =
     (None, \<lparr>newPkgs = afterRerun, hasChange = True,
             printed = [Log (Downgrade ''lodash'' ''4.17.21'' ''4.17.20''),
                        Log (Ignoring ''pkg-a@npm:^1.0.0'')]\<rparr>)"
  by code_simp

lemma second_run:
  "upgradeLock (installOnce beforeInstall afterInstall) scenario2 ''pkg-a''
       \<lparr>lockFile = Some (lockText afterInstall),
        console = [Warn (NewPackage ''lodash@npm:4.17.20''),
                   Warn (NewPackage ''lodash@npm:^4.17.0''),
                   Log (Ignoring ''pkg-a@npm:^1.0.0'')],
        outside = (1, 1)\<rparr> =
     (Inr (),
      \<lparr>lockFile = Some (lockText afterRerun),
       console = [Warn (NewPackage ''lodash@npm:4.17.20''),
                  Warn (NewPackage ''lodash@npm:^4.17.0''),
                  Log (Ignoring ''pkg-a@npm:^1.0.0''),
                  Log (Downgrade ''lodash'' ''4.17.21'' ''4.17.20''),
                  Log (Ignoring ''pkg-a@npm:^1.0.0''),
                  Log (Ignoring ''pkg-a@npm:^1.0.0'')],
       outside = (3, 2)\<rparr>)"
  by code_simp

text \<open>
  A lock file that a normal run ends with need not be settled. In the second scenario
  the first run warns about the new package \<^verbatim>\<open>lodash\<close> and leaves its two entries alone;
  the package manager is idempotent on the result; and the first pass of the second
  run, whose snapshot now has \<^verbatim>\<open>lodash\<close>, puts the entry of \<^verbatim>\<open>^4.17.0\<close> back to the
  first fitting entry, the one of \<^verbatim>\<open>4.17.20\<close>, and rewrites the lock file.
\<close>

theorem rerun_counterexample:
  "upgradeLock (installOnce beforeInstall afterInstall) scenario2 ''pkg-a'' (startWorld beforeInstall) =
     (Inr (),
      \<lparr>lockFile = Some (lockText afterInstall),
       console = [Warn (NewPackage ''lodash@npm:4.17.20''),
                  Warn (NewPackage ''lodash@npm:^4.17.0''),
                  Log (Ignoring ''pkg-a@npm:^1.0.0'')],
       outside = (1, 1)\<rparr>)
   \<and> installOnce beforeInstall afterInstall ''jlpm install'' (1, 1) (Some (lockText afterInstall))
       = (True, (2, 1), Some (lockText afterInstall))
   \<and> indexPackages scenario2 afterInstall (map fst afterInstall) [] =
       Inr [(''lodash'', [''lodash@npm:4.17.20'', ''lodash@npm:^4.17.0'']),
            (''pkg-a'', [''pkg-a@npm:^1.0.0''])]
   \<and> diffPass scenario2
         [(''lodash'', [''lodash@npm:4.17.20'', ''lodash@npm:^4.17.0'']),
          (''pkg-a'', [''pkg-a@npm:^1.0.0''])]
         ''pkg-a'' afterInstall afterInstall =
       (None, \<lparr>newPkgs = afterRerun, hasChange = True,
               printed = [Log (Downgrade ''lodash'' ''4.17.21'' ''4.17.20''),
                          Log (Ignoring ''pkg-a@npm:^1.0.0'')]\<rparr>)
   \<and> upgradeLock (installOnce beforeInstall afterInstall) scenario2 ''pkg-a''
       \<lparr>lockFile = Some (lockText afterInstall),
        console = [Warn (NewPackage ''lodash@npm:4.17.20''),
                   Warn (NewPackage ''lodash@npm:^4.17.0''),
                   Log (Ignoring ''pkg-a@npm:^1.0.0'')],
        outside = (1, 1)\<rparr> =
     (Inr (),
      \<lparr>lockFile = Some (lockText afterRerun),
       console = [Warn (NewPackage ''lodash@npm:4.17.20''),
                  Warn (NewPackage ''lodash@npm:^4.17.0''),
                  Log (Ignoring ''pkg-a@npm:^1.0.0''),
                  Log (Downgrade ''lodash'' ''4.17.21'' ''4.17.20''),
                  Log (Ignoring ''pkg-a@npm:^1.0.0''),
                  Log (Ignoring ''pkg-a@npm:^1.0.0'')],
       outside = (3, 2)\<rparr>)"
  by (intro conjI first_run idempotent_install second_index second_pass second_run)

end
